theory Spec2Isabelle
  imports Main "HOL-Library.Monad_Syntax" "HOL-Library.AList"
begin

section \<open>Timetable data model\<close>

text \<open>
  The algorithm of \<^verbatim>\<open>pyraptor/model/raptor.py\<close> works on the classes of
  \<^verbatim>\<open>pyraptor/model/structures.py\<close> and the constants of \<^verbatim>\<open>pyraptor/util.py\<close>.
  Stops and stations are objects compared by their identifier; both kinds of object are
  used as dictionary keys, so one type of keys covers them.  Times are Python integers
  (seconds), hence \<open>int\<close>.  A Python exception (a missing dictionary key) is the value
  \<open>None\<close> of an option type; every function that can raise returns an option.
\<close>

datatype place = Stop string | Station string

fun id_of :: "place \<Rightarrow> string" where
  "id_of (Stop i) = i"
| "id_of (Station n) = n"

record trip_stop_time =
  tst_stop :: place
  dts_arr :: int
  dts_dep :: int

record trip =
  hint :: int
  stop_times :: "trip_stop_time list"

record route =
  route_stops :: "place list"
  route_trips :: "trip list"

record transfer =
  transfer_from_stop :: place
  transfer_to_stop :: place
  layovertime :: "int option"

record station =
  station_name :: string
  station_stops :: "place list"

record timetable =
  stations :: "station list"
  stops :: "place list"
  trip_stop_times :: "trip_stop_time list"
  routes :: "route list"
  from_stop_idx :: "string \<Rightarrow> transfer list option"

text \<open>
  Modelled from the spec: \<^verbatim>\<open>LARGE_NUMBER\<close> of \<^verbatim>\<open>pyraptor/util.py\<close>, the large sentinel
  that stands for an infinite arrival time.  Only the fixture evaluations below use its value.
\<close>

definition LARGE_NUMBER :: int where
  "LARGE_NUMBER = 2147483647"

text \<open>
  Modelled from the spec: \<^verbatim>\<open>TRANSFER_TRIP\<close> of \<^verbatim>\<open>pyraptor/util.py\<close>, the sentinel marker
  stored in place of a trip when a stop is reached by a transfer.  A label's trip is a trip,
  the transfer marker, or Python's \<^verbatim>\<open>None\<close>.
\<close>

datatype trip_marker = ByTrip trip | TRANSFER_TRIP

subsection \<open>Lookups of the timetable structures\<close>

text \<open>
  Modelled from the spec: \<^verbatim>\<open>Routes.get_routes_of_stop\<close>, the index from a stop to the
  routes that serve it.
\<close>

definition get_routes_of_stop :: "timetable \<Rightarrow> place \<Rightarrow> route list" where
  "get_routes_of_stop tt p = filter (\<lambda>r. p \<in> set (route_stops r)) (routes tt)"

text \<open>
  Modelled from the spec: \<^verbatim>\<open>Route.stop_index\<close>, the precomputed mapping from a stop to
  its position in the route's stop sequence.  The mapping is filled in the order of the
  sequence, so that a stop that occurs more than once is mapped to its last position; a stop
  that is not on the route is a missing key.
\<close>

fun index_of :: "'a \<Rightarrow> 'a list \<Rightarrow> nat option" where
  "index_of x [] = None"
| "index_of x (y # ys) =
     (case index_of x ys of
        Some i \<Rightarrow> Some (Suc i)
      | None \<Rightarrow> if x = y then Some 0 else None)"

definition stop_index :: "route \<Rightarrow> place \<Rightarrow> nat option" where
  "stop_index r p = index_of p (route_stops r)"

text \<open>
  Modelled from the spec: \<^verbatim>\<open>Trip.get_stop\<close>, the stop time of a trip at a stop, looked up
  in the trip's index from stops to stop times.  The index is filled in the order of the
  run, so that a stop that the trip visits more than once is mapped to its last visit; a
  stop that the trip does not visit is a missing key.
\<close>

definition get_stop :: "trip \<Rightarrow> place \<Rightarrow> trip_stop_time option" where
  "get_stop t p = find (\<lambda>x. tst_stop x = p) (rev (stop_times t))"

text \<open>
  Modelled from the spec: \<^verbatim>\<open>Route.earliest_trip_stop_time\<close>, the earliest trip of the
  route that departs from the stop no earlier than the given time, found in the route's
  trips sorted ascending by departure time at that stop; \<^verbatim>\<open>None\<close> when there is none.
  The result pairs the stop time with its trip (the \<^verbatim>\<open>trip\<close> attribute of the stop time).
\<close>

definition trips_at :: "route \<Rightarrow> place \<Rightarrow> (trip \<times> trip_stop_time) list" where
  "trips_at r p = sort_key (\<lambda>x. dts_dep (snd x))
     (concat (map (\<lambda>t. case get_stop t p of None \<Rightarrow> [] | Some x \<Rightarrow> [(t, x)]) (route_trips r)))"

definition earliest_trip_stop_time :: "route \<Rightarrow> int \<Rightarrow> place \<Rightarrow> (trip \<times> trip_stop_time) option" where
  "earliest_trip_stop_time r dts p = find (\<lambda>x. dts \<le> dts_dep (snd x)) (trips_at r p)"

section \<open>Labels\<close>

record label =
  earliest_arrival_time :: int
  trip :: "trip_marker option"
  from_stop :: "place option"

definition Label :: label where
  "Label = \<lparr>earliest_arrival_time = LARGE_NUMBER, trip = None, from_stop = None\<rparr>"

definition update :: "int option \<Rightarrow> trip_marker option \<Rightarrow> place option \<Rightarrow> label \<Rightarrow> label" where
  "update eat tr fs l =
     (let l1 = (case eat of None \<Rightarrow> l | Some t \<Rightarrow> l\<lparr>earliest_arrival_time := t\<rparr>);
          l2 = l1\<lparr>trip := tr\<rparr>
      in case fs of None \<Rightarrow> l2 | Some f \<Rightarrow> l2\<lparr>from_stop := Some f\<rparr>)"

definition is_dominating :: "label \<Rightarrow> label \<Rightarrow> bool" where
  "is_dominating l other \<longleftrightarrow> earliest_arrival_time l \<le> earliest_arrival_time other"

section \<open>The round-based algorithm\<close>

text \<open>
  The state of one \<^verbatim>\<open>RaptorAlgorithm\<close> instance during \<^verbatim>\<open>run\<close>: the attributes
  \<^verbatim>\<open>bag_star\<close>, \<^verbatim>\<open>destination_stops\<close> and \<^verbatim>\<open>earliest_arrival_at_destination\<close>,
  and the local dictionary \<^verbatim>\<open>bag_round_stop\<close> that \<^verbatim>\<open>run\<close> passes through
  \<^verbatim>\<open>traverse_routes\<close> and \<^verbatim>\<open>add_transfer_time\<close>.
\<close>

record raptor =
  bag_round_stop :: "int \<Rightarrow> (place \<Rightarrow> label option) option"
  bag_star :: "place \<Rightarrow> label option"
  destination_stops :: "place list"
  earliest_arrival_at_destination :: int

text \<open>A \<^verbatim>\<open>for\<close> loop whose body may raise: the first exception ends the loop.\<close>

fun for_each :: "('a \<Rightarrow> 's \<Rightarrow> 's option) \<Rightarrow> 'a list \<Rightarrow> 's \<Rightarrow> 's option" where
  "for_each f [] s = Some s"
| "for_each f (x # xs) s = (case f x s of None \<Rightarrow> None | Some s' \<Rightarrow> for_each f xs s')"

subsection \<open>Accumulating the routes of the marked stops\<close>

definition accumulate_route :: "place \<Rightarrow> route \<Rightarrow> (route \<times> place) list \<Rightarrow> (route \<times> place) list option" where
  "accumulate_route marked_stop r route_marked_stops =
     (case map_of route_marked_stops r of
        None \<Rightarrow> Some (AList.update r marked_stop route_marked_stops)
      | Some current_stop_for_route \<Rightarrow>
          do {
            i \<leftarrow> stop_index r current_stop_for_route;
            j \<leftarrow> stop_index r marked_stop;
            Some (if i > j then AList.update r marked_stop route_marked_stops
                  else route_marked_stops)
          })"

definition accumulate_routes :: "timetable \<Rightarrow> place list \<Rightarrow> (route \<times> place) list option" where
  "accumulate_routes tt marked_stops =
     for_each (\<lambda>marked_stop. for_each (accumulate_route marked_stop) (get_routes_of_stop tt marked_stop))
       marked_stops []"

subsection \<open>Traversing the routes\<close>

text \<open>The variables of the loops of \<^verbatim>\<open>traverse_routes\<close>.\<close>

record scan =
  st :: raptor
  new_stops :: "place list"
  current_trip :: "trip option"
  boarding_stop :: "place option"

text \<open>
  The writes of one improvement: the round-\<open>k\<close> label and the global-best label of a stop
  are updated with the same arguments.
\<close>

definition write_labels :: "int \<Rightarrow> place \<Rightarrow> int \<Rightarrow> trip_marker option \<Rightarrow> place option \<Rightarrow> raptor \<Rightarrow> raptor option" where
  "write_labels k p t tr fs s =
     do {
       bag_k \<leftarrow> bag_round_stop s k;
       label_k \<leftarrow> bag_k p;
       label_star \<leftarrow> bag_star s p;
       Some (s\<lparr>bag_round_stop := (bag_round_stop s)(k \<mapsto> bag_k(p \<mapsto> update (Some t) tr fs label_k)),
               bag_star := (bag_star s)(p \<mapsto> update (Some t) tr fs label_star)\<rparr>)
     }"

definition arrive_by_trip :: "int \<Rightarrow> place \<Rightarrow> scan \<Rightarrow> scan option" where
  "arrive_by_trip k current_stop c =
     (case current_trip c of
        None \<Rightarrow> Some c
      | Some t \<Rightarrow>
          do {
            x \<leftarrow> get_stop t current_stop;
            best \<leftarrow> bag_star (st c) current_stop;
            let new_arrival_time = dts_arr x;
            let best_arrival_time_in_stop = earliest_arrival_time best;
            if new_arrival_time < best_arrival_time_in_stop
               \<and> new_arrival_time < earliest_arrival_at_destination (st c)
            then do {
              s1 \<leftarrow> write_labels k current_stop new_arrival_time (Some (ByTrip t)) (boarding_stop c) (st c);
              let s2 = (if current_stop \<in> set (destination_stops s1)
                        then s1\<lparr>earliest_arrival_at_destination := new_arrival_time\<rparr> else s1);
              Some (c\<lparr>st := s2, new_stops := new_stops c @ [current_stop]\<rparr>)
            }
            else Some c
          })"

definition catch_trip :: "int \<Rightarrow> route \<Rightarrow> place \<Rightarrow> scan \<Rightarrow> scan option" where
  "catch_trip k marked_route current_stop c =
     do {
       bag_prev \<leftarrow> bag_round_stop (st c) (k - 1);
       label_prev \<leftarrow> bag_prev current_stop;
       let previous_earliest_arrival_time = earliest_arrival_time label_prev;
       try \<leftarrow> (case current_trip c of
                 None \<Rightarrow> Some True
               | Some t \<Rightarrow> map_option (\<lambda>x. previous_earliest_arrival_time \<le> dts_dep x)
                             (get_stop t current_stop));
       if try then
         (case earliest_trip_stop_time marked_route previous_earliest_arrival_time current_stop of
            None \<Rightarrow> Some c
          | Some e \<Rightarrow>
              if Some (fst e) \<noteq> current_trip c
              then Some (c\<lparr>current_trip := Some (fst e), boarding_stop := Some current_stop\<rparr>)
              else Some c)
       else Some c
     }"

definition traverse_stop :: "int \<Rightarrow> route \<Rightarrow> place \<Rightarrow> scan \<Rightarrow> scan option" where
  "traverse_stop k marked_route current_stop c =
     do { c1 \<leftarrow> arrive_by_trip k current_stop c; catch_trip k marked_route current_stop c1 }"

definition traverse_route :: "int \<Rightarrow> route \<times> place \<Rightarrow> raptor \<times> place list \<Rightarrow> (raptor \<times> place list) option" where
  "traverse_route k rp sn =
     do {
       current_stop_index \<leftarrow> stop_index (fst rp) (snd rp);
       let remaining_stops_in_route = drop current_stop_index (route_stops (fst rp));
       c \<leftarrow> for_each (traverse_stop k (fst rp)) remaining_stops_in_route
              \<lparr>st = fst sn, new_stops = snd sn, current_trip = None, boarding_stop = None\<rparr>;
       Some (st c, new_stops c)
     }"

definition traverse_routes :: "int \<Rightarrow> (route \<times> place) list \<Rightarrow> raptor \<Rightarrow> (raptor \<times> place list) option" where
  "traverse_routes k route_marked_stops s = for_each (traverse_route k) route_marked_stops (s, [])"

subsection \<open>Relaxing the transfers\<close>

definition relax_transfer :: "int \<Rightarrow> place \<Rightarrow> int \<Rightarrow> transfer \<Rightarrow> raptor \<times> place list \<Rightarrow> (raptor \<times> place list) option" where
  "relax_transfer k current_stop time_sofar tr sn =
     (case layovertime tr of
        None \<Rightarrow> Some sn
      | Some transfer_time \<Rightarrow>
          do {
            let arrive_stop = transfer_to_stop tr;
            let new_earliest_arrival = time_sofar + transfer_time;
            previous \<leftarrow> bag_star (fst sn) arrive_stop;
            if new_earliest_arrival < earliest_arrival_time previous
            then do {
              s1 \<leftarrow> write_labels k arrive_stop new_earliest_arrival (Some TRANSFER_TRIP) (Some current_stop) (fst sn);
              Some (s1, snd sn @ [arrive_stop])
            }
            else Some sn
          })"

definition transfers_of_stop :: "timetable \<Rightarrow> int \<Rightarrow> place \<Rightarrow> raptor \<times> place list \<Rightarrow> (raptor \<times> place list) option" where
  "transfers_of_stop tt k current_stop sn =
     do {
       bag_k \<leftarrow> bag_round_stop (fst sn) k;
       label_k \<leftarrow> bag_k current_stop;
       let time_sofar = earliest_arrival_time label_k;
       trs \<leftarrow> from_stop_idx tt (id_of current_stop);
       for_each (relax_transfer k current_stop time_sofar) trs sn
     }"

definition add_transfer_time :: "timetable \<Rightarrow> int \<Rightarrow> place list \<Rightarrow> raptor \<Rightarrow> (raptor \<times> place list) option" where
  "add_transfer_time tt k marked_stops s = for_each (transfers_of_stop tt k) marked_stops (s, [])"

subsection \<open>The rounds\<close>

definition station_key :: "station \<Rightarrow> place" where
  "station_key s = Station (station_name s)"

definition empty_bag :: "timetable \<Rightarrow> place \<Rightarrow> label option" where
  "empty_bag tt = fold (\<lambda>p bag. bag(p \<mapsto> Label)) (stops tt @ map station_key (stations tt)) Map.empty"

definition init_state :: "timetable \<Rightarrow> station \<Rightarrow> int \<Rightarrow> raptor" where
  "init_state tt to_station rounds =
     \<lparr>bag_round_stop = (\<lambda>k. if 0 \<le> k \<and> k \<le> rounds then Some (empty_bag tt) else None),
      bag_star = fold (\<lambda>p bag. bag(p \<mapsto> Label)) (stops tt) Map.empty,
      destination_stops = remdups (station_stops to_station),
      earliest_arrival_at_destination = LARGE_NUMBER\<rparr>"

definition init_from_stop :: "int \<Rightarrow> place \<Rightarrow> raptor \<times> place list \<Rightarrow> (raptor \<times> place list) option" where
  "init_from_stop dep_secs p sn =
     do {
       bag_0 \<leftarrow> bag_round_stop (fst sn) 0;
       label_0 \<leftarrow> bag_0 p;
       label_star \<leftarrow> bag_star (fst sn) p;
       Some ((fst sn)\<lparr>bag_round_stop := (bag_round_stop (fst sn))(0 \<mapsto> bag_0(p \<mapsto> update (Some dep_secs) None None label_0)),
                      bag_star := (bag_star (fst sn))(p \<mapsto> update (Some dep_secs) None None label_star)\<rparr>,
             snd sn @ [p])
     }"

text \<open>
  After a round the marked stops are a Python set, whose iteration order is not specified;
  \<open>ord\<close> is the enumeration of that set (of the improved stops, in the order they were
  found) that the next round iterates over.
\<close>

definition round_body :: "timetable \<Rightarrow> (place list \<Rightarrow> place list) \<Rightarrow> int \<Rightarrow> raptor \<times> place list \<Rightarrow> (raptor \<times> place list) option" where
  "round_body tt ord k sn =
     do {
       route_marked_stops \<leftarrow> accumulate_routes tt (snd sn);
       sn1 \<leftarrow> traverse_routes k route_marked_stops (fst sn);
       sn2 \<leftarrow> add_transfer_time tt k (snd sn1) (fst sn1);
       Some (fst sn2, ord (snd sn1 @ snd sn2))
     }"

text \<open>
  The loop \<^verbatim>\<open>for k in range(1, rounds + 1)\<close>, from round \<open>k\<close> on with \<open>n\<close> rounds left;
  it breaks at the first round that finds no marked stop.
\<close>

fun run_rounds :: "timetable \<Rightarrow> (place list \<Rightarrow> place list) \<Rightarrow> int \<Rightarrow> nat \<Rightarrow> raptor \<times> place list \<Rightarrow> (raptor \<times> place list) option" where
  "run_rounds tt ord k 0 sn = Some sn"
| "run_rounds tt ord k (Suc n) sn =
     (if length (snd sn) > 0
      then (case round_body tt ord k sn of None \<Rightarrow> None | Some sn' \<Rightarrow> run_rounds tt ord (k + 1) n sn')
      else Some sn)"

definition run_init :: "timetable \<Rightarrow> place list \<Rightarrow> station \<Rightarrow> int \<Rightarrow> int \<Rightarrow> (raptor \<times> place list) option" where
  "run_init tt from_stops to_station dep_secs rounds =
     for_each (init_from_stop dep_secs) from_stops (init_state tt to_station rounds, [])"

text \<open>The state of \<^verbatim>\<open>run\<close> after at most \<open>n\<close> rounds of a query with \<open>rounds\<close> rounds.\<close>

definition run_upto :: "timetable \<Rightarrow> (place list \<Rightarrow> place list) \<Rightarrow> place list \<Rightarrow> station \<Rightarrow> int \<Rightarrow> int \<Rightarrow> nat \<Rightarrow> (raptor \<times> place list) option" where
  "run_upto tt ord from_stops to_station dep_secs rounds n =
     do { sn \<leftarrow> run_init tt from_stops to_station dep_secs rounds; run_rounds tt ord 1 n sn }"

definition run :: "timetable \<Rightarrow> (place list \<Rightarrow> place list) \<Rightarrow> place list \<Rightarrow> station \<Rightarrow> int \<Rightarrow> int \<Rightarrow> (place \<Rightarrow> label option) option" where
  "run tt ord from_stops to_station dep_secs rounds =
     map_option (\<lambda>sn. bag_star (fst sn)) (run_upto tt ord from_stops to_station dep_secs rounds (nat rounds))"

section \<open>Selecting the destination stop and reconstructing the journey\<close>

text \<open>
  \<^verbatim>\<open>best_stop_at_target_station\<close> returns a stop or the integer \<^verbatim>\<open>0\<close>; the zero
  sentinel is the inner \<open>None\<close>.
\<close>

definition best_stop_step :: "(place \<Rightarrow> label option) \<Rightarrow> place \<Rightarrow> place option \<times> int \<Rightarrow> (place option \<times> int) option" where
  "best_stop_step bag p fe =
     do {
       l \<leftarrow> bag p;
       Some (if earliest_arrival_time l < snd fe then (Some p, earliest_arrival_time l) else fe)
     }"

definition best_stop_at_target_station :: "place list \<Rightarrow> (place \<Rightarrow> label option) \<Rightarrow> place option option" where
  "best_stop_at_target_station to_stops bag =
     map_option fst (for_each (best_stop_step bag) to_stops (None, LARGE_NUMBER))"

text \<open>
  Modelled from the spec: the classes \<^verbatim>\<open>Leg\<close> and \<^verbatim>\<open>Journey\<close> of
  \<^verbatim>\<open>pyraptor/model/structures.py\<close>.  A leg is (from-stop, to-stop, trip or transfer
  marker, arrival time); a journey is an ordered sequence of legs, \<^verbatim>\<open>prepend_leg\<close> puts a
  leg in front of it.  A journey exposes its overall departure time (the departure of the
  first leg's trip from the leg's from-stop) and its overall arrival time (the arrival time
  of the last leg); both raise on a journey that has no such leg.  The length of a journey
  is the number of its legs, so that Python's truth test \<^verbatim>\<open>not journey\<close> holds of
  \<^verbatim>\<open>None\<close> and of a journey without legs.
\<close>

datatype leg = Leg place place "trip_marker option" int

datatype journey = Journey "leg list"

fun legs :: "journey \<Rightarrow> leg list" where
  "legs (Journey ls) = ls"

definition prepend_leg :: "leg \<Rightarrow> journey \<Rightarrow> journey" where
  "prepend_leg l j = Journey (l # legs j)"

fun leg_dep :: "leg \<Rightarrow> int option" where
  "leg_dep (Leg f t (Some (ByTrip tr)) a) = map_option dts_dep (get_stop tr f)"
| "leg_dep (Leg f t _ a) = None"

fun leg_arr :: "leg \<Rightarrow> int" where
  "leg_arr (Leg f t tr a) = a"

definition dep :: "journey \<Rightarrow> int option" where
  "dep j = (case legs j of [] \<Rightarrow> None | l # ls \<Rightarrow> leg_dep l)"

definition arr :: "journey \<Rightarrow> int option" where
  "arr j = (case legs j of [] \<Rightarrow> None | l # ls \<Rightarrow> Some (leg_arr (last (l # ls))))"

text \<open>
  The \<^verbatim>\<open>while\<close> loop of \<^verbatim>\<open>reconstruct_journey\<close>.  It ends at a label with no
  from-stop; \<open>None\<close> means that it raises (a stop without a label) or never returns.
\<close>

partial_function (option) reconstruct_from :: "(place \<Rightarrow> label option) \<Rightarrow> place \<Rightarrow> journey \<Rightarrow> journey option" where
  "reconstruct_from bag to_stop j =
     (case bag to_stop of
        None \<Rightarrow> None
      | Some bag_to_stop \<Rightarrow>
          (case from_stop bag_to_stop of
             None \<Rightarrow> Some j
           | Some fs \<Rightarrow>
               reconstruct_from bag fs
                 (prepend_leg (Leg fs to_stop (trip bag_to_stop) (earliest_arrival_time bag_to_stop)) j)))"

declare reconstruct_from.simps [code]

definition reconstruct_journey :: "place \<Rightarrow> (place \<Rightarrow> label option) \<Rightarrow> journey option" where
  "reconstruct_journey destination bag = reconstruct_from bag destination (Journey [])"

text \<open>
  The test \<^verbatim>\<open>if not original_journey\<close> is Python's truth test; it comes before the test
  of equality.
\<close>

definition is_dominated :: "journey option \<Rightarrow> journey \<Rightarrow> bool option" where
  "is_dominated original_journey new_journey =
     (case original_journey of
        None \<Rightarrow> Some False
      | Some oj \<Rightarrow>
          if legs oj = [] then Some False
          else if oj = new_journey then Some True
          else do {
            original_depart \<leftarrow> dep oj;
            new_depart \<leftarrow> dep new_journey;
            original_arrival \<leftarrow> arr oj;
            new_arrival \<leftarrow> arr new_journey;
            Some ((original_depart \<ge> new_depart \<and> original_arrival < new_arrival)
                  \<or> (original_depart > new_depart \<and> original_arrival \<le> new_arrival))
          })"

section \<open>The point query and the range query\<close>

text \<open>
  Modelled from the spec: the station index of the timetable (\<^verbatim>\<open>Stations.get\<close>,
  \<^verbatim>\<open>Stations.get_stops\<close> and indexing by name), a lookup of a station by its name.
\<close>

definition get_station :: "timetable \<Rightarrow> string \<Rightarrow> station option" where
  "get_station tt name = find (\<lambda>s. station_name s = name) (stations tt)"

definition get_stops :: "timetable \<Rightarrow> string \<Rightarrow> place list option" where
  "get_stops tt name = map_option station_stops (get_station tt name)"

text \<open>
  Modelled from the spec: \<^verbatim>\<open>TripStopTimes.get_trip_stop_times_in_range\<close>, the stop times of
  the trips that leave from one of the given stops within the window of departure times.
\<close>

definition get_trip_stop_times_in_range :: "timetable \<Rightarrow> place list \<Rightarrow> int \<Rightarrow> int \<Rightarrow> trip_stop_time list" where
  "get_trip_stop_times_in_range tt from_stops dep_secs_min dep_secs_max =
     filter (\<lambda>x. tst_stop x \<in> set from_stops \<and> dep_secs_min \<le> dts_dep x \<and> dts_dep x \<le> dep_secs_max)
       (trip_stop_times tt)"

text \<open>The point query returns a journey or Python's \<^verbatim>\<open>None\<close> (the inner \<open>None\<close>).\<close>

definition run_raptor :: "timetable \<Rightarrow> (place list \<Rightarrow> place list) \<Rightarrow> string \<Rightarrow> string \<Rightarrow> int \<Rightarrow> int \<Rightarrow> journey option option" where
  "run_raptor tt ord origin_station destination_station dep_secs rounds =
     do {
       from_stops \<leftarrow> get_stops tt origin_station;
       to_stops \<leftarrow> get_stops tt destination_station;
       to_station \<leftarrow> get_station tt destination_station;
       best_labels \<leftarrow> run tt ord from_stops to_station dep_secs rounds;
       dest_stop \<leftarrow> best_stop_at_target_station to_stops best_labels;
       (case dest_stop of
          None \<Rightarrow> Some None
        | Some d \<Rightarrow> map_option Some (reconstruct_journey d best_labels))
     }"

text \<open>The acceptance test of the range query for one candidate journey.\<close>

definition accept_journey :: "journey \<Rightarrow> journey list \<Rightarrow> journey list option" where
  "accept_journey j journeys_to_destinations =
     (if length journeys_to_destinations = 0 then Some (journeys_to_destinations @ [j])
      else do {
        d \<leftarrow> is_dominated (Some (last journeys_to_destinations)) j;
        Some (if \<not> d then journeys_to_destinations @ [j] else journeys_to_destinations)
      })"

definition range_step :: "timetable \<Rightarrow> (place list \<Rightarrow> place list) \<Rightarrow> place list \<Rightarrow> place list \<Rightarrow> string \<Rightarrow> int \<Rightarrow> int \<Rightarrow> journey list \<Rightarrow> journey list option" where
  "range_step tt ord from_stops to_stops destination_station rounds dep_secs journeys_to_destinations =
     do {
       to_station \<leftarrow> get_station tt destination_station;
       best_labels \<leftarrow> run tt ord from_stops to_station dep_secs rounds;
       dest_stop \<leftarrow> best_stop_at_target_station to_stops best_labels;
       (case dest_stop of
          None \<Rightarrow> Some journeys_to_destinations
        | Some d \<Rightarrow>
            do {
              j \<leftarrow> reconstruct_journey d best_labels;
              accept_journey j journeys_to_destinations
            })
     }"

definition potential_dep_secs :: "timetable \<Rightarrow> place list \<Rightarrow> int \<Rightarrow> int \<Rightarrow> int list" where
  "potential_dep_secs tt from_stops dep_secs_min dep_secs_max =
     rev (sort (remdups (map dts_dep (get_trip_stop_times_in_range tt from_stops dep_secs_min dep_secs_max))))"

definition run_range_raptor :: "timetable \<Rightarrow> (place list \<Rightarrow> place list) \<Rightarrow> string \<Rightarrow> string \<Rightarrow> int \<Rightarrow> int \<Rightarrow> int \<Rightarrow> journey list option" where
  "run_range_raptor tt ord origin_station destination_station dep_secs_min dep_secs_max rounds =
     do {
       from_stops \<leftarrow> get_stops tt origin_station;
       to_stops \<leftarrow> get_stops tt destination_station;
       for_each (range_step tt ord from_stops to_stops destination_station rounds)
         (potential_dep_secs tt from_stops dep_secs_min dep_secs_max) []
     }"

section \<open>The test fixture\<close>

text \<open>
  Modelled from the spec: the default timetable of the tests.  The rows are those of
  \<^verbatim>\<open>get_default_data\<close> in \<^verbatim>\<open>pyraptor/tests/conftest.py\<close> (trips 101, 202 and 303, and
  their copies 111, 212 and 313 one hour later); the functions of
  \<^verbatim>\<open>pyraptor/tests/utils.py\<close> that build the timetable from the rows are modelled as the
  spec describes the fixture: one stop for each of the stations A, C, X and F, the arrival
  time of a row equal to its departure time, one route for each stop sequence and no
  transfers.
\<close>

definition stop_time :: "string \<Rightarrow> int \<Rightarrow> trip_stop_time" where
  "stop_time code t = \<lparr>tst_stop = Stop code, dts_arr = t, dts_dep = t\<rparr>"

definition trip_101 :: "int \<Rightarrow> int \<Rightarrow> trip" where
  "trip_101 trip_offset time_offset =
     \<lparr>hint = trip_offset + 101,
      stop_times = [stop_time ''A'' (time_offset + 100), stop_time ''C'' (time_offset + 600)]\<rparr>"

definition trip_202 :: "int \<Rightarrow> int \<Rightarrow> trip" where
  "trip_202 trip_offset time_offset =
     \<lparr>hint = trip_offset + 202,
      stop_times = [stop_time ''C'' (time_offset + 660), stop_time ''F'' (time_offset + 1500)]\<rparr>"

definition trip_303 :: "int \<Rightarrow> int \<Rightarrow> trip" where
  "trip_303 trip_offset time_offset =
     \<lparr>hint = trip_offset + 303,
      stop_times = [stop_time ''C'' (time_offset + 900), stop_time ''X'' (time_offset + 1200),
                    stop_time ''F'' (time_offset + 1800)]\<rparr>"

definition default_trips :: "trip list" where
  "default_trips = [trip_101 0 0, trip_202 0 0, trip_303 0 0,
                    trip_101 10 3600, trip_202 10 3600, trip_303 10 3600]"

definition default_timetable :: timetable where
  "default_timetable =
     \<lparr>stations = map (\<lambda>c. \<lparr>station_name = c, station_stops = [Stop c]\<rparr>) [''A'', ''C'', ''F'', ''X''],
      stops = map Stop [''A'', ''C'', ''F'', ''X''],
      trip_stop_times = concat (map stop_times default_trips),
      routes = [\<lparr>route_stops = [Stop ''A'', Stop ''C''], route_trips = [trip_101 0 0, trip_101 10 3600]\<rparr>,
                \<lparr>route_stops = [Stop ''C'', Stop ''F''], route_trips = [trip_202 0 0, trip_202 10 3600]\<rparr>,
                \<lparr>route_stops = [Stop ''C'', Stop ''X'', Stop ''F''], route_trips = [trip_303 0 0, trip_303 10 3600]\<rparr>],
      from_stop_idx = (\<lambda>i. if i \<in> set [''A'', ''C'', ''F'', ''X''] then Some [] else None)\<rparr>"

definition station_F :: station where
  "station_F = \<lparr>station_name = ''F'', station_stops = [Stop ''F'']\<rparr>"

section \<open>Notions used by the properties\<close>

text \<open>
  An enumeration of the marked set: it lists exactly the elements of the set, each once.
\<close>

definition enumerates :: "(place list \<Rightarrow> place list) \<Rightarrow> bool" where
  "enumerates ord \<longleftrightarrow> (\<forall>xs. set (ord xs) = set xs \<and> distinct (ord xs))"

text \<open>
  The backward walk that the spec describes for journey reconstruction: from a stop, follow
  the recorded from-stop of each label until a label with no from-stop is reached.  The
  legs are listed in the order of the walk, the leg into the destination first.
\<close>

inductive from_stop_walk :: "(place \<Rightarrow> label option) \<Rightarrow> place \<Rightarrow> leg list \<Rightarrow> bool" for bag where
  origin: "bag p = Some l \<Longrightarrow> from_stop l = None \<Longrightarrow> from_stop_walk bag p []"
| step: "bag p = Some l \<Longrightarrow> from_stop l = Some q \<Longrightarrow> from_stop_walk bag q ls \<Longrightarrow>
         from_stop_walk bag p (Leg q p (trip l) (earliest_arrival_time l) # ls)"

code_pred from_stop_walk .

text \<open>
  Domination of journeys in the words of the spec: a journey \<open>a\<close> is dominated by a journey
  \<open>b\<close> when \<open>b\<close> departs no earlier and arrives no later than \<open>a\<close>, with at least one
  strict inequality.
\<close>

definition dominated_by :: "journey \<Rightarrow> journey \<Rightarrow> bool" where
  "dominated_by a b =
     (case (dep a, arr a, dep b, arr b) of
        (Some dep_a, Some arr_a, Some dep_b, Some arr_b) \<Rightarrow>
          dep_a \<le> dep_b \<and> arr_b \<le> arr_a \<and> (dep_a < dep_b \<or> arr_b < arr_a)
      | _ \<Rightarrow> False)"

text \<open>
  The relation between a journey \<open>a\<close> of the result list and the journey \<open>b\<close> accepted
  right after it: they differ, and where \<open>b\<close> departs no later than \<open>a\<close> it arrives no
  later, strictly earlier where it departs strictly earlier.
\<close>

definition accepted_after :: "journey \<Rightarrow> journey \<Rightarrow> bool" where
  "accepted_after a b =
     (b \<noteq> a \<and>
      (case (dep a, arr a, dep b, arr b) of
         (Some dep_a, Some arr_a, Some dep_b, Some arr_b) \<Rightarrow>
           (dep_b \<le> dep_a \<longrightarrow> arr_b \<le> arr_a) \<and> (dep_b < dep_a \<longrightarrow> arr_b < arr_a)
       | _ \<Rightarrow> False))"

text \<open>The two journeys of the fixture from A to F, by the trips 101 and 202 and by their copies.\<close>

definition journey_101_202 :: journey where
  "journey_101_202 =
     Journey [Leg (Stop ''A'') (Stop ''C'') (Some (ByTrip (trip_101 0 0))) 600,
              Leg (Stop ''C'') (Stop ''F'') (Some (ByTrip (trip_202 0 0))) 1500]"

definition journey_111_212 :: journey where
  "journey_111_212 =
     Journey [Leg (Stop ''A'') (Stop ''C'') (Some (ByTrip (trip_101 10 3600))) 4200,
              Leg (Stop ''C'') (Stop ''F'') (Some (ByTrip (trip_202 10 3600))) 5100]"

text \<open>
  One guarded write of round \<open>k\<close>: the round-\<open>k\<close> label and the global-best label of
  a stop are overwritten with an arrival time strictly below the stop's global-best
  arrival time, and the bound at the destination may be lowered to that time.
\<close>

definition guarded_write :: "int \<Rightarrow> raptor \<Rightarrow> raptor \<Rightarrow> bool" where
  "guarded_write k s s' \<longleftrightarrow>
     (\<exists>p t tr fs l s1. bag_star s p = Some l \<and> t < earliest_arrival_time l
        \<and> write_labels k p t tr fs s = Some s1
        \<and> (s' = s1 \<or> (t < earliest_arrival_at_destination s \<and> s' = s1\<lparr>earliest_arrival_at_destination := t\<rparr>)))"

text \<open>
  A full write is a guarded write that also records a from-stop, so that the round-\<open>k\<close>
  label and the global-best label of the stop become the same label.  During the traversal
  of a route the held trip has a boarding stop.  The global-best label of every stop is the
  label of that stop in the table of some round; after the initialisation it is the one of
  round 0.
\<close>

definition full_write :: "int \<Rightarrow> raptor \<Rightarrow> raptor \<Rightarrow> bool" where
  "full_write k s s' \<longleftrightarrow>
     (\<exists>p t tr b l s1. bag_star s p = Some l \<and> t < earliest_arrival_time l
        \<and> write_labels k p t tr (Some b) s = Some s1
        \<and> (s' = s1 \<or> (t < earliest_arrival_at_destination s \<and> s' = s1\<lparr>earliest_arrival_at_destination := t\<rparr>)))"

definition boarded :: "scan \<Rightarrow> bool" where
  "boarded c \<longleftrightarrow> (current_trip c \<noteq> None \<longrightarrow> boarding_stop c \<noteq> None)"

definition star_in_rounds :: "raptor \<Rightarrow> bool" where
  "star_in_rounds s \<longleftrightarrow>
     (\<forall>p l. bag_star s p = Some l \<longrightarrow> (\<exists>k bag_k. bag_round_stop s k = Some bag_k \<and> bag_k p = Some l))"

definition star_in_round_0 :: "raptor \<Rightarrow> bool" where
  "star_in_round_0 s \<longleftrightarrow>
     (\<exists>bag_0. bag_round_stop s 0 = Some bag_0 \<and> (\<forall>p l. bag_star s p = Some l \<longrightarrow> bag_0 p = Some l))"

text \<open>
  Between two states, the global-best label of a stop is kept, or replaced by a label with
  a strictly smaller arrival time.
\<close>

definition kept_or_improved :: "raptor \<Rightarrow> raptor \<Rightarrow> place \<Rightarrow> bool" where
  "kept_or_improved s s' p =
     (case bag_star s p of
        None \<Rightarrow> bag_star s' p = None
      | Some l \<Rightarrow>
          (case bag_star s' p of
             None \<Rightarrow> False
           | Some l' \<Rightarrow> l' = l \<or> earliest_arrival_time l' < earliest_arrival_time l))"

text \<open>
  Properties of the per-round labels of a stop: the round-\<open>k\<close> label is the default label
  or records the stop's global-best arrival time; no per-round label is below the
  global-best arrival time; the round-\<open>k\<close> label is the default label or its arrival time
  is strictly below that of the label of the round before; and the shape of the labels
  during the initialisation with the departure time \<open>d\<close>.
\<close>

definition round_sync :: "int \<Rightarrow> raptor \<Rightarrow> place \<Rightarrow> bool" where
  "round_sync k s p =
     (case bag_round_stop s k of
        None \<Rightarrow> True
      | Some bag_k \<Rightarrow>
          (case bag_k p of
             None \<Rightarrow> True
           | Some label_k \<Rightarrow>
               label_k = Label \<or>
               (case bag_star s p of
                  None \<Rightarrow> False
                | Some l \<Rightarrow> earliest_arrival_time label_k = earliest_arrival_time l)))"

definition star_below_rounds :: "raptor \<Rightarrow> bool" where
  "star_below_rounds s \<longleftrightarrow>
     (\<forall>j bag_j p label_j l. bag_round_stop s j = Some bag_j \<longrightarrow> bag_j p = Some label_j \<longrightarrow>
        bag_star s p = Some l \<longrightarrow> earliest_arrival_time l \<le> earliest_arrival_time label_j)"

definition round_strict :: "int \<Rightarrow> raptor \<Rightarrow> place \<Rightarrow> bool" where
  "round_strict k s p =
     (case bag_round_stop s k of
        None \<Rightarrow> True
      | Some bag_k \<Rightarrow>
          (case bag_k p of
             None \<Rightarrow> True
           | Some label_k \<Rightarrow>
               label_k = Label \<or>
               (case bag_round_stop s (k - 1) of
                  None \<Rightarrow> True
                | Some bag_prev \<Rightarrow>
                    (case bag_prev p of
                       None \<Rightarrow> True
                     | Some label_prev \<Rightarrow>
                         earliest_arrival_time label_k < earliest_arrival_time label_prev))))"

definition init_labels :: "int \<Rightarrow> raptor \<Rightarrow> bool" where
  "init_labels d s \<longleftrightarrow>
     (\<forall>p l. bag_star s p = Some l \<longrightarrow> earliest_arrival_time l = d \<or> earliest_arrival_time l = LARGE_NUMBER)
     \<and> (\<forall>j bag_j p label_j. bag_round_stop s j = Some bag_j \<longrightarrow> bag_j p = Some label_j \<longrightarrow>
           earliest_arrival_time label_j = LARGE_NUMBER
           \<or> (earliest_arrival_time label_j = d \<and> (\<forall>l. bag_star s p = Some l \<longrightarrow> earliest_arrival_time l = d)))"



text \<open>The arrival time recorded for a stop in the table of a round.\<close>

definition round_arrival :: "raptor \<Rightarrow> int \<Rightarrow> place \<Rightarrow> int option" where
  "round_arrival s k p =
     do { bag_k \<leftarrow> bag_round_stop s k; l \<leftarrow> bag_k p; Some (earliest_arrival_time l) }"

text \<open>The label recorded for a stop in the table of a round.\<close>

definition round_label :: "raptor \<Rightarrow> int \<Rightarrow> place \<Rightarrow> label option" where
  "round_label s k p = do { bag_k \<leftarrow> bag_round_stop s k; bag_k p }"

text \<open>
  Notions for the transfer phase of a round, between the state \<open>s\<close> before the phase and a
  state \<open>s'\<close> during or after it: the label written for a stop reached by a transfer; a
  stop whose global-best arrival time is smaller in \<open>s'\<close> than in \<open>s\<close>; an outgoing
  transfer of a stop with its layover cost; a stop whose labels in \<open>s'\<close> were written for a
  transfer from a marked stop, with a time between the round-\<open>k\<close> arrival of that stop in
  \<open>s'\<close> and in \<open>s\<close> plus the cost; the state after one write; a bound on the global-best
  arrival time of a stop; and the invariant of the loops of the phase.
\<close>

definition transfer_label :: "int \<Rightarrow> place \<Rightarrow> label" where
  "transfer_label t p = \<lparr>earliest_arrival_time = t, trip = Some TRANSFER_TRIP, from_stop = Some p\<rparr>"

definition improved :: "raptor \<Rightarrow> raptor \<Rightarrow> place \<Rightarrow> bool" where
  "improved s s' q \<longleftrightarrow>
     (\<exists>l l'. bag_star s q = Some l \<and> bag_star s' q = Some l'
        \<and> earliest_arrival_time l' < earliest_arrival_time l)"

definition outgoing :: "timetable \<Rightarrow> place \<Rightarrow> transfer \<Rightarrow> int \<Rightarrow> bool" where
  "outgoing tt p tr c \<longleftrightarrow>
     (\<exists>trs. from_stop_idx tt (id_of p) = Some trs \<and> tr \<in> set trs \<and> layovertime tr = Some c)"

definition reached_by_transfer :: "timetable \<Rightarrow> int \<Rightarrow> place list \<Rightarrow> raptor \<Rightarrow> raptor \<Rightarrow> place \<Rightarrow> bool" where
  "reached_by_transfer tt k marked s s' q \<longleftrightarrow>
     (\<exists>p tr c a a' t. p \<in> set marked \<and> outgoing tt p tr c \<and> transfer_to_stop tr = q
        \<and> round_arrival s k p = Some a \<and> round_arrival s' k p = Some a' \<and> a' + c \<le> t \<and> t \<le> a + c
        \<and> bag_star s' q = Some (transfer_label t p) \<and> round_label s' k q = Some (transfer_label t p))"

definition phase_inv :: "timetable \<Rightarrow> int \<Rightarrow> place list \<Rightarrow> raptor \<Rightarrow> raptor \<times> place list \<Rightarrow> bool" where
  "phase_inv tt k marked s0 sn \<longleftrightarrow>
     (guarded_write k)\<^sup>*\<^sup>* s0 (fst sn)
     \<and> (\<forall>q. q \<in> set (snd sn) \<longleftrightarrow> improved s0 (fst sn) q)
     \<and> (\<forall>q \<in> set (snd sn). reached_by_transfer tt k marked s0 (fst sn) q)
     \<and> (\<forall>q. q \<notin> set (snd sn) \<longrightarrow>
           bag_star (fst sn) q = bag_star s0 q \<and> round_label (fst sn) k q = round_label s0 k q)
     \<and> (\<forall>j. j \<noteq> k \<longrightarrow> bag_round_stop (fst sn) j = bag_round_stop s0 j)
     \<and> earliest_arrival_at_destination (fst sn) = earliest_arrival_at_destination s0"

definition written :: "int \<Rightarrow> place \<Rightarrow> label \<Rightarrow> (place \<Rightarrow> label option) \<Rightarrow> raptor \<Rightarrow> raptor" where
  "written k q l bag_k s =
     s\<lparr>bag_round_stop := (bag_round_stop s)(k \<mapsto> bag_k(q \<mapsto> l)), bag_star := (bag_star s)(q \<mapsto> l)\<rparr>"

definition star_le :: "raptor \<Rightarrow> place \<Rightarrow> int \<Rightarrow> bool" where
  "star_le s q x \<longleftrightarrow> (\<exists>l. bag_star s q = Some l \<and> earliest_arrival_time l \<le> x)"

subsection \<open>Well-formed timetables\<close>

text \<open>
  The invariants of the data model that the spec asks of a timetable: a route lists every
  stop once, its stops are stops of the timetable, and each of its trips visits exactly
  the stops of the route in order, with non-decreasing times along the trip (arrival, then
  departure, stop after stop); every stop has an entry in the transfer index, and every
  transfer leads to a stop of the timetable and has a strictly positive layover cost.
\<close>

definition times_of :: "trip \<Rightarrow> int list" where
  "times_of t = concat (map (\<lambda>x. [dts_arr x, dts_dep x]) (stop_times t))"

definition well_formed :: "timetable \<Rightarrow> bool" where
  "well_formed tt \<longleftrightarrow>
     (\<forall>r \<in> set (routes tt).
        distinct (route_stops r) \<and> set (route_stops r) \<subseteq> set (stops tt)
        \<and> (\<forall>t \<in> set (route_trips r). map tst_stop (stop_times t) = route_stops r \<and> sorted (times_of t)))
     \<and> (\<forall>p \<in> set (stops tt).
          case from_stop_idx tt (id_of p) of
            None \<Rightarrow> False
          | Some trs \<Rightarrow>
              \<forall>tr \<in> set trs. transfer_to_stop tr \<in> set (stops tt)
                \<and> (case layovertime tr of None \<Rightarrow> True | Some c \<Rightarrow> 0 < c))"

text \<open>
  The from-stop relation of a table of labels, and the invariant of the global-best table
  that makes the from-stop chains end: the bound at the destination is at most the
  sentinel, the keys are the stops, a per-round label is not below the global-best arrival
  of its stop unless it is at least the sentinel, the arrival time does not increase along
  a from-stop, and the from-stop relation has no cycle.  A linked write is a guarded write
  that records a from-stop whose own global-best arrival is not later than the new time.
\<close>

definition pred_rel :: "(place \<Rightarrow> label option) \<Rightarrow> (place \<times> place) set" where
  "pred_rel bag = {(b, p). \<exists>l. bag p = Some l \<and> from_stop l = Some b}"

definition chain_inv :: "timetable \<Rightarrow> raptor \<Rightarrow> bool" where
  "chain_inv tt s \<longleftrightarrow>
     earliest_arrival_at_destination s \<le> LARGE_NUMBER
     \<and> dom (bag_star s) = set (stops tt)
     \<and> (\<forall>j bag_j p label_j l. bag_round_stop s j = Some bag_j \<longrightarrow> bag_j p = Some label_j \<longrightarrow>
           bag_star s p = Some l \<longrightarrow>
           earliest_arrival_time l \<le> earliest_arrival_time label_j \<or> LARGE_NUMBER \<le> earliest_arrival_time label_j)
     \<and> (\<forall>p l b. bag_star s p = Some l \<longrightarrow> from_stop l = Some b \<longrightarrow>
           (\<exists>lb. bag_star s b = Some lb \<and> earliest_arrival_time lb \<le> earliest_arrival_time l))
     \<and> acyclic (pred_rel (bag_star s))"

definition linked_write :: "int \<Rightarrow> raptor \<Rightarrow> raptor \<Rightarrow> bool" where
  "linked_write k s s' \<longleftrightarrow>
     (\<exists>p t tr b l lb s1. bag_star s p = Some l \<and> t < earliest_arrival_time l
        \<and> bag_star s b = Some lb \<and> earliest_arrival_time lb \<le> t
        \<and> write_labels k p t tr (Some b) s = Some s1
        \<and> (s' = s1 \<or> (t < earliest_arrival_at_destination s \<and> s' = s1\<lparr>earliest_arrival_at_destination := t\<rparr>)))"

text \<open>
  Invariants of the loops: the marked stops carry their global-best arrival in the
  round's table; the trip held during the traversal of a route was boarded at a stop
  before the remaining ones, not before the global-best arrival at that stop, and does not
  reach a remaining stop before it left the boarding stop; and the shape of the state after
  the initialisation.
\<close>

definition marked_sync :: "int \<Rightarrow> raptor \<Rightarrow> place list \<Rightarrow> bool" where
  "marked_sync k s ps \<longleftrightarrow>
     (\<forall>p \<in> set ps. \<exists>bag_k label_k l. bag_round_stop s k = Some bag_k \<and> bag_k p = Some label_k
        \<and> bag_star s p = Some l \<and> earliest_arrival_time label_k = earliest_arrival_time l)"

definition scan_inv :: "timetable \<Rightarrow> int \<Rightarrow> route \<Rightarrow> place list \<Rightarrow> scan \<Rightarrow> bool" where
  "scan_inv tt k r rest c \<longleftrightarrow>
     chain_inv tt (st c) \<and> marked_sync k (st c) (new_stops c)
     \<and> (\<exists>pre. route_stops r = pre @ rest)
     \<and> (\<forall>t. current_trip c = Some t \<longrightarrow>
          t \<in> set (route_trips r)
          \<and> (\<exists>b x lb. boarding_stop c = Some b \<and> b \<notin> set rest \<and> get_stop t b = Some x
                \<and> bag_star (st c) b = Some lb
                \<and> (earliest_arrival_time lb \<le> dts_dep x \<or> LARGE_NUMBER \<le> dts_dep x)
                \<and> (\<forall>p \<in> set rest. \<forall>y. get_stop t p = Some y \<longrightarrow> dts_dep x \<le> dts_arr y)))"

definition init_inv :: "int \<Rightarrow> raptor \<Rightarrow> bool" where
  "init_inv d s \<longleftrightarrow> init_labels d s \<and> earliest_arrival_at_destination s = LARGE_NUMBER
     \<and> (\<forall>p l. bag_star s p = Some l \<longrightarrow> from_stop l = None)"

text \<open>
  Invariants for the absence of exceptions: the keys of the tables, and the held trip being
  a trip of the traversed route.
\<close>

definition dom_inv :: "timetable \<Rightarrow> int \<Rightarrow> raptor \<Rightarrow> bool" where
  "dom_inv tt rounds s \<longleftrightarrow>
     dom (bag_star s) = set (stops tt)
     \<and> (\<forall>j. 0 \<le> j \<and> j \<le> rounds \<longrightarrow> (\<exists>bag_j. bag_round_stop s j = Some bag_j \<and> set (stops tt) \<subseteq> dom bag_j))"

definition scan_ok :: "timetable \<Rightarrow> int \<Rightarrow> route \<Rightarrow> scan \<Rightarrow> bool" where
  "scan_ok tt rounds r c \<longleftrightarrow>
     dom_inv tt rounds (st c) \<and> set (new_stops c) \<subseteq> set (stops tt)
     \<and> (\<forall>t. current_trip c = Some t \<longrightarrow> t \<in> set (route_trips r))"

definition state_ok :: "timetable \<Rightarrow> int \<Rightarrow> raptor \<times> place list \<Rightarrow> bool" where
  "state_ok tt rounds sn \<longleftrightarrow> dom_inv tt rounds (fst sn) \<and> set (snd sn) \<subseteq> set (stops tt)"

subsection \<open>Small examples\<close>

text \<open>
  A state in which the stop C was reached at 600 and the stop X was not reached, with the
  labels of the rounds 0 and 1; and a transfer from C to X.
\<close>

definition example_labels :: "place \<Rightarrow> label option" where
  "example_labels =
     [Stop ''C'' \<mapsto> \<lparr>earliest_arrival_time = 600, trip = Some (ByTrip (trip_101 0 0)), from_stop = Some (Stop ''A'')\<rparr>,
      Stop ''X'' \<mapsto> Label]"

definition example_state :: raptor where
  "example_state =
     \<lparr>bag_round_stop = (\<lambda>k. if k = 0 \<or> k = 1 then Some example_labels else None),
      bag_star = example_labels,
      destination_stops = [Stop ''F''],
      earliest_arrival_at_destination = LARGE_NUMBER\<rparr>"

definition transfer_C_X :: transfer where
  "transfer_C_X = \<lparr>transfer_from_stop = Stop ''C'', transfer_to_stop = Stop ''X'', layovertime = Some 120\<rparr>"

definition timetable_with_transfer :: timetable where
  "timetable_with_transfer =
     default_timetable\<lparr>from_stop_idx :=
       (\<lambda>i. if i = ''C'' then Some [transfer_C_X] else from_stop_idx default_timetable i)\<rparr>"

text \<open>
  The first round of the query from A at 100 on the fixture with the transfer from C to X:
  the state after the initialisation, the state and the marked stops after the route
  traversal of round 1, and the state and the marked stops after its transfer phase.
\<close>

definition transfer_query_start :: raptor where
  "transfer_query_start = fst (the (run_init timetable_with_transfer [Stop ''A''] station_F 100 2))"

definition transfer_query_routes :: "raptor \<times> place list" where
  "transfer_query_routes =
     the (traverse_routes 1 [(\<lparr>route_stops = [Stop ''A'', Stop ''C''],
            route_trips = [trip_101 0 0, trip_101 10 3600]\<rparr>, Stop ''A'')] transfer_query_start)"

definition transfer_query_transfers :: "raptor \<times> place list" where
  "transfer_query_transfers =
     the (add_transfer_time timetable_with_transfer 1 (snd transfer_query_routes) (fst transfer_query_routes))"

text \<open>The fixture with one more station, which has no stop.\<close>

definition timetable_with_empty_station :: timetable where
  "timetable_with_empty_station =
     default_timetable\<lparr>stations := \<lparr>station_name = ''E'', station_stops = []\<rparr> # stations default_timetable\<rparr>"

text \<open>A timetable with one trip that takes no time from A to B, and its station B.\<close>

definition instant_trip :: trip where
  "instant_trip = \<lparr>hint = 1, stop_times = [stop_time ''A'' 100, stop_time ''B'' 100]\<rparr>"

definition instant_timetable :: timetable where
  "instant_timetable =
     \<lparr>stations = map (\<lambda>c. \<lparr>station_name = c, station_stops = [Stop c]\<rparr>) [''A'', ''B''],
      stops = map Stop [''A'', ''B''],
      trip_stop_times = stop_times instant_trip,
      routes = [\<lparr>route_stops = [Stop ''A'', Stop ''B''], route_trips = [instant_trip]\<rparr>],
      from_stop_idx = (\<lambda>i. if i \<in> set [''A'', ''B''] then Some [] else None)\<rparr>"

definition station_B :: station where
  "station_B = \<lparr>station_name = ''B'', station_stops = [Stop ''B'']\<rparr>"

text \<open>
  Modelled from the spec: the rows of \<^verbatim>\<open>get_default_data\<close> read with one stop for each
  platform.  A row carries a platform code beside the station code (trip 101 ends at
  platform 1 of C; the trips 202 and 303 leave from platform 2 of C), and in the data model
  of the spec a stop is a platform of a station and a transfer is a walk between two stops
  of a station, added in both directions.  The layover cost \<open>c\<close> of the walk between the
  two platforms of C is a parameter: the constant \<^verbatim>\<open>TRANSFER_COST\<close> of
  \<^verbatim>\<open>pyraptor/util.py\<close> is not part of the sources at hand.
\<close>

definition platform_stop_time :: "string \<Rightarrow> int \<Rightarrow> trip_stop_time" where
  "platform_stop_time i t = \<lparr>tst_stop = Stop i, dts_arr = t, dts_dep = t\<rparr>"

definition platform_trip_101 :: "int \<Rightarrow> int \<Rightarrow> trip" where
  "platform_trip_101 trip_offset time_offset =
     \<lparr>hint = trip_offset + 101,
      stop_times = [platform_stop_time ''A-0'' (time_offset + 100),
                    platform_stop_time ''C-1'' (time_offset + 600)]\<rparr>"

definition platform_trip_202 :: "int \<Rightarrow> int \<Rightarrow> trip" where
  "platform_trip_202 trip_offset time_offset =
     \<lparr>hint = trip_offset + 202,
      stop_times = [platform_stop_time ''C-2'' (time_offset + 660),
                    platform_stop_time ''F-0'' (time_offset + 1500)]\<rparr>"

definition platform_trip_303 :: "int \<Rightarrow> int \<Rightarrow> trip" where
  "platform_trip_303 trip_offset time_offset =
     \<lparr>hint = trip_offset + 303,
      stop_times = [platform_stop_time ''C-2'' (time_offset + 900),
                    platform_stop_time ''X-0'' (time_offset + 1200),
                    platform_stop_time ''F-0'' (time_offset + 1800)]\<rparr>"

definition platform_timetable :: "int \<Rightarrow> timetable" where
  "platform_timetable c =
     \<lparr>stations = [\<lparr>station_name = ''A'', station_stops = [Stop ''A-0'']\<rparr>,
                  \<lparr>station_name = ''C'', station_stops = [Stop ''C-1'', Stop ''C-2'']\<rparr>,
                  \<lparr>station_name = ''F'', station_stops = [Stop ''F-0'']\<rparr>,
                  \<lparr>station_name = ''X'', station_stops = [Stop ''X-0'']\<rparr>],
      stops = map Stop [''A-0'', ''C-1'', ''C-2'', ''F-0'', ''X-0''],
      trip_stop_times = concat (map stop_times
        [platform_trip_101 0 0, platform_trip_202 0 0, platform_trip_303 0 0,
         platform_trip_101 10 3600, platform_trip_202 10 3600, platform_trip_303 10 3600]),
      routes = [\<lparr>route_stops = [Stop ''A-0'', Stop ''C-1''],
                  route_trips = [platform_trip_101 0 0, platform_trip_101 10 3600]\<rparr>,
                \<lparr>route_stops = [Stop ''C-2'', Stop ''F-0''],
                  route_trips = [platform_trip_202 0 0, platform_trip_202 10 3600]\<rparr>,
                \<lparr>route_stops = [Stop ''C-2'', Stop ''X-0'', Stop ''F-0''],
                  route_trips = [platform_trip_303 0 0, platform_trip_303 10 3600]\<rparr>],
      from_stop_idx = (\<lambda>i.
        if i = ''C-1'' then Some [\<lparr>transfer_from_stop = Stop ''C-1'', transfer_to_stop = Stop ''C-2'',
                                    layovertime = Some c\<rparr>]
        else if i = ''C-2'' then Some [\<lparr>transfer_from_stop = Stop ''C-2'', transfer_to_stop = Stop ''C-1'',
                                         layovertime = Some c\<rparr>]
        else if i \<in> set [''A-0'', ''F-0'', ''X-0''] then Some [] else None)\<rparr>"

definition platform_station_F :: station where
  "platform_station_F = \<lparr>station_name = ''F'', station_stops = [Stop ''F-0'']\<rparr>"

text \<open>
  A timetable in which a trip overtakes another trip of its route.  The station O has the
  stops S1 and S2.  From S2, trip 3 leaves at 100 and reaches D at 800, and trip 2 leaves at
  200 and reaches D at 500; from S1, trip 1 leaves at 300 and reaches D at 700.
\<close>

definition overtaking_trip :: "int \<Rightarrow> string \<Rightarrow> int \<Rightarrow> int \<Rightarrow> trip" where
  "overtaking_trip n code d a = \<lparr>hint = n, stop_times = [stop_time code d, stop_time ''D'' a]\<rparr>"

definition overtaking_timetable :: timetable where
  "overtaking_timetable =
     \<lparr>stations = [\<lparr>station_name = ''O'', station_stops = [Stop ''S1'', Stop ''S2'']\<rparr>,
                  \<lparr>station_name = ''D'', station_stops = [Stop ''D'']\<rparr>],
      stops = map Stop [''S1'', ''S2'', ''D''],
      trip_stop_times = concat (map stop_times
        [overtaking_trip 1 ''S1'' 300 700, overtaking_trip 2 ''S2'' 200 500, overtaking_trip 3 ''S2'' 100 800]),
      routes = [\<lparr>route_stops = [Stop ''S1'', Stop ''D''], route_trips = [overtaking_trip 1 ''S1'' 300 700]\<rparr>,
                \<lparr>route_stops = [Stop ''S2'', Stop ''D''],
                  route_trips = [overtaking_trip 3 ''S2'' 100 800, overtaking_trip 2 ''S2'' 200 500]\<rparr>],
      from_stop_idx = (\<lambda>i. if i \<in> set [''S1'', ''S2'', ''D''] then Some [] else None)\<rparr>"

definition journey_from_S1 :: journey where
  "journey_from_S1 = Journey [Leg (Stop ''S1'') (Stop ''D'') (Some (ByTrip (overtaking_trip 1 ''S1'' 300 700))) 700]"

definition journey_from_S2 :: journey where
  "journey_from_S2 = Journey [Leg (Stop ''S2'') (Stop ''D'') (Some (ByTrip (overtaking_trip 2 ''S2'' 200 500))) 500]"


text \<open>
  A timetable with a route that visits a stop twice: the trip of the route A, B, C, B is at
  A at 0, at B at 50, at C at 100 and at B again at 200; the trip of the route C, B leaves
  C at 120 and reaches B at 140.  The stop times of both trips are non-decreasing and there
  is no transfer.
\<close>

definition loop_trip :: trip where
  "loop_trip = \<lparr>hint = 1, stop_times = [stop_time ''A'' 0, stop_time ''B'' 50, stop_time ''C'' 100,
                                         stop_time ''B'' 200]\<rparr>"

definition back_trip :: trip where
  "back_trip = \<lparr>hint = 2, stop_times = [stop_time ''C'' 120, stop_time ''B'' 140]\<rparr>"

definition loop_timetable :: timetable where
  "loop_timetable =
     \<lparr>stations = map (\<lambda>c. \<lparr>station_name = c, station_stops = [Stop c]\<rparr>) [''A'', ''B'', ''C''],
      stops = map Stop [''A'', ''B'', ''C''],
      trip_stop_times = stop_times loop_trip @ stop_times back_trip,
      routes = [\<lparr>route_stops = [Stop ''A'', Stop ''B'', Stop ''C'', Stop ''B''], route_trips = [loop_trip]\<rparr>,
                \<lparr>route_stops = [Stop ''C'', Stop ''B''], route_trips = [back_trip]\<rparr>],
      from_stop_idx = (\<lambda>i. if i \<in> set [''A'', ''B'', ''C''] then Some [] else None)\<rparr>"

section \<open>Loops\<close>

lemma for_each_invariant:
  assumes "for_each f xs s = Some s'" and "P s"
    and "\<And>x a b. x \<in> set xs \<Longrightarrow> P a \<Longrightarrow> f x a = Some b \<Longrightarrow> P b"
  shows "P s'"
  using assms
proof (induction xs arbitrary: s)
  case Nil
  then show ?case by simp
next
  case (Cons x xs)
  from Cons.prems(1) obtain s1 where s1: "f x s = Some s1" and rest: "for_each f xs s1 = Some s'"
    by (auto split: option.splits)
  have "P s1" using Cons.prems(2,3) s1 by auto
  with rest Cons.IH Cons.prems(3) show ?case by auto
qed

lemma for_each_steps:
  assumes "for_each f xs a = Some b"
    and "\<And>x a b. x \<in> set xs \<Longrightarrow> f x a = Some b \<Longrightarrow> R\<^sup>*\<^sup>* (g a) (g b)"
  shows "R\<^sup>*\<^sup>* (g a) (g b)"
  by (rule for_each_invariant [OF assms(1), where P = "\<lambda>b. R\<^sup>*\<^sup>* (g a) (g b)"])
     (auto dest: assms(2))

section \<open>The fixture query\<close>

lemmas model_defs = run_def run_upto_def run_init_def init_state_def empty_bag_def init_from_stop_def
  round_body_def accumulate_routes_def accumulate_route_def get_routes_of_stop_def stop_index_def
  traverse_routes_def traverse_route_def traverse_stop_def arrive_by_trip_def catch_trip_def write_labels_def
  earliest_trip_stop_time_def trips_at_def get_stop_def add_transfer_time_def transfers_of_stop_def relax_transfer_def
  update_def Label_def LARGE_NUMBER_def station_key_def
  default_timetable_def trip_101_def trip_202_def trip_303_def stop_time_def station_F_def

lemmas query_defs = run_raptor_def get_stops_def get_station_def best_stop_at_target_station_def
  best_stop_step_def reconstruct_journey_def reconstruct_from.simps prepend_leg_def

lemma enumerates_single: "enumerates ord \<Longrightarrow> ord [x] = [x]"
proof -
  assume e: "enumerates ord"
  then have s: "set (ord [x]) = {x}" and d: "distinct (ord [x])"
    by (simp_all add: enumerates_def)
  show ?thesis
  proof (cases "ord [x]")
    case Nil
    with s show ?thesis by simp
  next
    case (Cons y ys)
    with s d have "y = x" "set ys \<subseteq> {x}" "y \<notin> set ys" by auto
    then have "ys = []" by (cases ys) auto
    with Cons \<open>y = x\<close> show ?thesis by simp
  qed
qed

lemma enumerates_remdups: "enumerates remdups"
  by (simp add: enumerates_def)

lemma fixture_two_rounds:
  assumes "ord [Stop ''C''] = [Stop ''C'']"
  shows "map_option (\<lambda>bag. bag (Stop ''F'')) (run default_timetable ord [Stop ''A''] station_F 100 2)
     = Some (Some \<lparr>earliest_arrival_time = 1500, trip = Some (ByTrip (trip_202 0 0)), from_stop = Some (Stop ''C'')\<rparr>)"
  using assms
  by (simp add: model_defs numeral_2_eq_2 Let_def)

lemma fixture_one_round:
  "map_option (\<lambda>bag. bag (Stop ''F'')) (run default_timetable ord [Stop ''A''] station_F 100 1)
     = Some (Some \<lparr>earliest_arrival_time = LARGE_NUMBER, trip = None, from_stop = None\<rparr>)"
  by (simp add: model_defs Let_def)

lemma fixture_journey:
  assumes "ord [Stop ''C''] = [Stop ''C'']"
  shows "run_raptor default_timetable ord ''A'' ''F'' 100 2
     = Some (Some (Journey [Leg (Stop ''A'') (Stop ''C'') (Some (ByTrip (trip_101 0 0))) 600,
                            Leg (Stop ''C'') (Stop ''F'') (Some (ByTrip (trip_202 0 0))) 1500]))"
  using assms
  by (simp add: query_defs model_defs numeral_2_eq_2 Let_def)

lemma fixture_no_journey:
  "run_raptor default_timetable ord ''A'' ''F'' 100 1 = Some None"
  by (simp add: query_defs model_defs Let_def)

text \<open>
  Claim C2.  On the fixture, the point query from A to F with departure time 100 and two
  rounds records at F the arrival time 1500, by trip 202 boarded at C, and the journey is
  trip 101 from A to C (arriving at 600) followed by trip 202 from C to F; with one round
  the label of F keeps the sentinel arrival time and no journey is returned.  This holds
  for every enumeration order of the marked set.
\<close>

theorem fixture_query_A_to_F:
  "enumerates ord \<Longrightarrow>
   map_option (\<lambda>bag. bag (Stop ''F'')) (run default_timetable ord [Stop ''A''] station_F 100 2)
     = Some (Some \<lparr>earliest_arrival_time = 1500, trip = Some (ByTrip (trip_202 0 0)), from_stop = Some (Stop ''C'')\<rparr>)
   \<and> run_raptor default_timetable ord ''A'' ''F'' 100 2
     = Some (Some (Journey [Leg (Stop ''A'') (Stop ''C'') (Some (ByTrip (trip_101 0 0))) 600,
                            Leg (Stop ''C'') (Stop ''F'') (Some (ByTrip (trip_202 0 0))) 1500]))
   \<and> map_option (\<lambda>bag. bag (Stop ''F'')) (run default_timetable ord [Stop ''A''] station_F 100 1)
     = Some (Some \<lparr>earliest_arrival_time = LARGE_NUMBER, trip = None, from_stop = None\<rparr>)
   \<and> run_raptor default_timetable ord ''A'' ''F'' 100 1 = Some None"
  using fixture_two_rounds [of ord] fixture_journey [of ord] fixture_one_round [of ord]
    fixture_no_journey [of ord] enumerates_single [of ord "Stop ''C''"]
  by simp

theorem fixture_query_A_to_F_witness:
  "enumerates remdups
   \<and> map_option (\<lambda>bag. bag (Stop ''F'')) (run default_timetable remdups [Stop ''A''] station_F 100 2)
     = Some (Some \<lparr>earliest_arrival_time = 1500, trip = Some (ByTrip (trip_202 0 0)), from_stop = Some (Stop ''C'')\<rparr>)
   \<and> run_raptor default_timetable remdups ''A'' ''F'' 100 1 = Some None"
  using fixture_query_A_to_F [of remdups] enumerates_remdups by simp


subsection \<open>The fixture read with one stop per platform\<close>

text \<open>
  When the two platforms of C are two stops joined by a walk of cost \<open>c\<close>, the query from
  A to F with departure time 100 and two rounds depends on \<open>c\<close>: a walk of at most 60
  seconds reaches platform 2 in time for trip 202, which leaves at 660, and F is reached
  at 1500; a longer walk of at most 300 seconds misses trip 202 and takes trip 303, which
  leaves at 900, and F is reached at 1800.
\<close>

lemmas platform_defs = model_defs platform_timetable_def platform_trip_101_def platform_trip_202_def
  platform_trip_303_def platform_stop_time_def platform_station_F_def

lemma platform_fixture_short_walk:
  assumes "0 \<le> c" and "c \<le> 60"
  shows "map_option (\<lambda>bag. bag (Stop ''F-0''))
           (run (platform_timetable c) remdups [Stop ''A-0''] platform_station_F 100 2)
     = Some (Some \<lparr>earliest_arrival_time = 1500, trip = Some (ByTrip (platform_trip_202 0 0)),
                   from_stop = Some (Stop ''C-2'')\<rparr>)"
  using assms by (simp add: platform_defs numeral_2_eq_2 Let_def)

lemma platform_fixture_long_walk:
  assumes "60 < c" and "c \<le> 300"
  shows "map_option (\<lambda>bag. bag (Stop ''F-0''))
           (run (platform_timetable c) remdups [Stop ''A-0''] platform_station_F 100 2)
     = Some (Some \<lparr>earliest_arrival_time = 1800, trip = Some (ByTrip (platform_trip_303 0 0)),
                   from_stop = Some (Stop ''C-2'')\<rparr>)"
  using assms by (simp add: platform_defs numeral_2_eq_2 Let_def)
section \<open>Journey reconstruction\<close>

lemma reconstruct_from_walk:
  "from_stop_walk bag p ls \<Longrightarrow> reconstruct_from bag p (Journey acc) = Some (Journey (rev ls @ acc))"
proof (induction arbitrary: acc rule: from_stop_walk.induct)
  case (origin p l)
  then show ?case by (simp add: reconstruct_from.simps)
next
  case (step p l q ls)
  show ?case
    using step.hyps(1,2) step.IH [of "Leg q p (trip l) (earliest_arrival_time l) # acc"]
    by (subst reconstruct_from.simps) (simp add: prepend_leg_def)
qed

text \<open>
  Claim C5.  When the destination's label has no from-stop, \<^verbatim>\<open>reconstruct_journey\<close>
  returns the journey without legs.  When the backward from-stop walk from the destination
  reaches a label with no from-stop, \<^verbatim>\<open>reconstruct_journey\<close> returns the legs of that walk
  in reversed (chronological) order, each leg made of the label's from-stop, the stop of
  the label, the label's trip and the label's arrival time.
\<close>

theorem reconstruct_journey_walk:
  "(bag destination = Some l \<and> from_stop l = None \<longrightarrow> reconstruct_journey destination bag = Some (Journey []))
   \<and> (from_stop_walk bag destination ls \<longrightarrow> reconstruct_journey destination bag = Some (Journey (rev ls)))"
  using reconstruct_from_walk [of bag destination ls "[]"]
  by (auto simp: reconstruct_journey_def reconstruct_from.simps)

theorem reconstruct_journey_walk_witness:
  "[Stop ''A'' \<mapsto> \<lparr>earliest_arrival_time = 100, trip = None, from_stop = None\<rparr>,
    Stop ''C'' \<mapsto> \<lparr>earliest_arrival_time = 600, trip = Some TRANSFER_TRIP, from_stop = Some (Stop ''A'')\<rparr>] (Stop ''A'')
     = Some \<lparr>earliest_arrival_time = 100, trip = None, from_stop = None\<rparr>
   \<and> from_stop \<lparr>earliest_arrival_time = 100, trip = None, from_stop = None\<rparr> = None
   \<and> reconstruct_journey (Stop ''A'')
       [Stop ''A'' \<mapsto> \<lparr>earliest_arrival_time = 100, trip = None, from_stop = None\<rparr>,
        Stop ''C'' \<mapsto> \<lparr>earliest_arrival_time = 600, trip = Some TRANSFER_TRIP, from_stop = Some (Stop ''A'')\<rparr>]
     = Some (Journey [])
   \<and> from_stop_walk
       [Stop ''A'' \<mapsto> \<lparr>earliest_arrival_time = 100, trip = None, from_stop = None\<rparr>,
        Stop ''C'' \<mapsto> \<lparr>earliest_arrival_time = 600, trip = Some TRANSFER_TRIP, from_stop = Some (Stop ''A'')\<rparr>]
       (Stop ''C'') [Leg (Stop ''A'') (Stop ''C'') (Some TRANSFER_TRIP) 600]
   \<and> reconstruct_journey (Stop ''C'')
       [Stop ''A'' \<mapsto> \<lparr>earliest_arrival_time = 100, trip = None, from_stop = None\<rparr>,
        Stop ''C'' \<mapsto> \<lparr>earliest_arrival_time = 600, trip = Some TRANSFER_TRIP, from_stop = Some (Stop ''A'')\<rparr>]
     = Some (Journey [Leg (Stop ''A'') (Stop ''C'') (Some TRANSFER_TRIP) 600])"
proof -
  let ?a = "\<lparr>earliest_arrival_time = 100, trip = None, from_stop = None\<rparr>"
  let ?c = "\<lparr>earliest_arrival_time = 600, trip = Some TRANSFER_TRIP, from_stop = Some (Stop ''A'')\<rparr>"
  let ?bag = "[Stop ''A'' \<mapsto> ?a, Stop ''C'' \<mapsto> ?c]"
  have a: "?bag (Stop ''A'') = Some ?a" and c: "?bag (Stop ''C'') = Some ?c" by simp_all
  have wa: "from_stop_walk ?bag (Stop ''A'') []"
    by (rule from_stop_walk.origin [of ?bag "Stop ''A''" ?a]) simp_all
  have "from_stop_walk ?bag (Stop ''C'') [Leg (Stop ''A'') (Stop ''C'') (trip ?c) (earliest_arrival_time ?c)]"
    using wa by (intro from_stop_walk.step [of ?bag "Stop ''C''" ?c "Stop ''A''" "[]"]) simp_all
  then have wc: "from_stop_walk ?bag (Stop ''C'') [Leg (Stop ''A'') (Stop ''C'') (Some TRANSFER_TRIP) 600]"
    by simp
  show ?thesis
    using reconstruct_journey_walk [of ?bag "Stop ''A''" ?a "[]"]
      reconstruct_journey_walk [of ?bag "Stop ''C''" ?c "[Leg (Stop ''A'') (Stop ''C'') (Some TRANSFER_TRIP) 600]"]
      a wc
    by simp
qed

section \<open>The range query's filter\<close>

lemma is_dominated_False_neq: "is_dominated (Some a) b = Some False \<Longrightarrow> legs a = [] \<or> a \<noteq> b"
  by (auto simp: is_dominated_def split: if_splits)

lemma successively_weaken:
  "successively P xs \<Longrightarrow> (\<And>a b. P a b \<Longrightarrow> Q a b) \<Longrightarrow> successively Q xs"
  by (induction xs rule: induct_list012) auto

lemma accept_journey_successively:
  assumes "accept_journey j js = Some js'" and "successively P js"
    and "\<And>a. is_dominated (Some a) j = Some False \<Longrightarrow> P a j"
  shows "successively P js'"
proof (cases "js = []")
  case True
  with assms(1) show ?thesis by (auto simp: accept_journey_def)
next
  case False
  with assms(1) obtain d where d: "is_dominated (Some (last js)) j = Some d"
    and js': "js' = (if \<not> d then js @ [j] else js)"
    by (auto simp: accept_journey_def split: bind_splits)
  show ?thesis
  proof (cases d)
    case True
    with js' assms(2) show ?thesis by simp
  next
    case f: False
    with d have "P (last js) j" by (auto dest: assms(3))
    with False js' f assms(2) show ?thesis
      by (simp add: successively_append_iff)
  qed
qed

lemma range_step_successively:
  assumes "range_step tt ord fs ts d r t js = Some js'" and "successively P js"
    and "\<And>a j. is_dominated (Some a) j = Some False \<Longrightarrow> P a j"
  shows "successively P js'"
proof -
  from assms(1) have "js' = js \<or> (\<exists>j. accept_journey j js = Some js')"
    by (auto simp: range_step_def split: bind_splits option.splits)
  with assms(2,3) show ?thesis
    by (auto dest: accept_journey_successively)
qed

lemma run_range_raptor_successively:
  assumes "run_range_raptor tt ord orig dest lo hi r = Some js"
    and "\<And>a j. is_dominated (Some a) j = Some False \<Longrightarrow> P a j"
  shows "successively P js"
proof -
  from assms(1) obtain fs ts where
    "for_each (range_step tt ord fs ts dest r) (potential_dep_secs tt fs lo hi) [] = Some js"
    by (auto simp: run_range_raptor_def split: bind_splits)
  then show ?thesis
  proof (rule for_each_invariant)
    show "successively P []" by simp
  next
    fix x a b
    assume "successively P a" "range_step tt ord fs ts dest r x a = Some b"
    then show "successively P b"
      using assms(2) by (auto dest: range_step_successively)
  qed
qed

lemma fixture_range_query:
  "run_range_raptor default_timetable remdups ''A'' ''F'' 0 50000 2
     = Some [Journey [Leg (Stop ''A'') (Stop ''C'') (Some (ByTrip (trip_101 10 3600))) 4200,
                      Leg (Stop ''C'') (Stop ''F'') (Some (ByTrip (trip_202 10 3600))) 5100],
             Journey [Leg (Stop ''A'') (Stop ''C'') (Some (ByTrip (trip_101 0 0))) 600,
                      Leg (Stop ''C'') (Stop ''F'') (Some (ByTrip (trip_202 0 0))) 1500]]"
  by code_simp

lemma same_station_range_query:
  "run_range_raptor default_timetable remdups ''A'' ''A'' 0 50000 2 = Some [Journey [], Journey []]"
  by code_simp

text \<open>
  Claim C10, as stated, fails for a journey without legs.  Such a journey is false in the
  truth test that \<^verbatim>\<open>is_dominated\<close> makes first, so that it returns \<^verbatim>\<open>False\<close> for two equal
  journeys without legs; and the range query on the fixture from station A to station A
  over the window from 0 to 50000, whose two candidate departure times 3700 and 100 each
  give the journey without legs, returns that journey twice.
\<close>

theorem no_adjacent_duplicates_counterexample:
  "is_dominated (Some (Journey [])) (Journey []) = Some False
   \<and> accept_journey (Journey []) [Journey []] = Some [Journey [], Journey []]
   \<and> run_range_raptor default_timetable remdups ''A'' ''A'' 0 50000 2 = Some [Journey [], Journey []]
   \<and> \<not> distinct_adj [Journey [], Journey []]"
  using same_station_range_query
  by (simp add: is_dominated_def accept_journey_def)

text \<open>
  Claim C10, amended.  \<^verbatim>\<open>is_dominated\<close> returns \<^verbatim>\<open>True\<close> when the new journey equals the
  previously accepted journey and that journey has at least one leg; so the acceptance
  test of the range query leaves the list unchanged for a candidate equal to the last
  accepted journey when it has a leg, and two adjacent equal journeys in the list that a
  range query returns have no legs.
\<close>

theorem no_adjacent_duplicates:
  "(legs j \<noteq> [] \<longrightarrow> is_dominated (Some j) j = Some True)
   \<and> (js \<noteq> [] \<and> legs (last js) \<noteq> [] \<longrightarrow> accept_journey (last js) js = Some js)
   \<and> (run_range_raptor tt ord origin_station destination_station dep_secs_min dep_secs_max rounds = Some js'
        \<longrightarrow> successively (\<lambda>a b. a = b \<longrightarrow> legs a = []) js')"
proof (intro conjI impI)
  assume "legs j \<noteq> []"
  then show "is_dominated (Some j) j = Some True"
    by (simp add: is_dominated_def)
next
  assume "js \<noteq> [] \<and> legs (last js) \<noteq> []"
  then show "accept_journey (last js) js = Some js"
    by (simp add: is_dominated_def accept_journey_def)
next
  assume "run_range_raptor tt ord origin_station destination_station dep_secs_min dep_secs_max rounds = Some js'"
  then show "successively (\<lambda>a b. a = b \<longrightarrow> legs a = []) js'"
    by (rule run_range_raptor_successively) (auto dest: is_dominated_False_neq)
qed

theorem no_adjacent_duplicates_witness:
  "legs journey_101_202 \<noteq> []
   \<and> is_dominated (Some journey_101_202) journey_101_202 = Some True
   \<and> [journey_101_202] \<noteq> [] \<and> legs (last [journey_101_202]) \<noteq> []
   \<and> accept_journey (last [journey_101_202]) [journey_101_202] = Some [journey_101_202]
   \<and> run_range_raptor default_timetable remdups ''A'' ''F'' 0 50000 2 = Some [journey_111_212, journey_101_202]
   \<and> successively (\<lambda>a b. a = b \<longrightarrow> legs a = []) [journey_111_212, journey_101_202]"
  using no_adjacent_duplicates [where j = journey_101_202 and js = "[journey_101_202]" and tt = default_timetable
      and ord = remdups and origin_station = "''A''" and destination_station = "''F''" and dep_secs_min = 0
      and dep_secs_max = 50000 and rounds = 2 and js' = "[journey_111_212, journey_101_202]"]
    fixture_range_query
  by (simp add: journey_101_202_def journey_111_212_def)

section \<open>The range query's filter and domination\<close>

lemma is_dominated_dominated_by:
  assumes "legs a \<noteq> []" "dep a = Some da" "arr a = Some aa" "dep b = Some db" "arr b = Some ab"
  shows "is_dominated (Some a) b = Some (b = a \<or> dominated_by b a)"
  using assms by (auto simp: is_dominated_def dominated_by_def)

lemma is_dominated_False:
  assumes "is_dominated (Some a) b = Some False"
  shows "legs a = [] \<or> accepted_after a b"
  using assms
  by (auto simp: is_dominated_def accepted_after_def split: if_splits bind_splits)

lemma accept_journey_eq:
  assumes "js \<noteq> []" "legs (last js) \<noteq> []" "dep (last js) = Some da" "arr (last js) = Some aa"
    "dep j = Some db" "arr j = Some ab"
  shows "accept_journey j js = Some (if j = last js \<or> dominated_by j (last js) then js else js @ [j])"
  using assms is_dominated_dominated_by [OF assms(2-6)]
  by (simp add: accept_journey_def)

lemma accepted_after_not_dominated: "accepted_after a b \<Longrightarrow> b \<noteq> a \<and> \<not> dominated_by b a"
  by (auto simp: accepted_after_def dominated_by_def split: option.splits)

lemma overtaking_range_query:
  "run_range_raptor overtaking_timetable remdups ''O'' ''D'' 0 1000 1
     = Some [journey_from_S1, journey_from_S2, journey_from_S1]"
  by code_simp

lemma fixture_dep_arr:
  "dep journey_101_202 = Some 100" "arr journey_101_202 = Some 1500"
  "dep journey_111_212 = Some 3700" "arr journey_111_212 = Some 5100"
  by (simp_all add: journey_101_202_def journey_111_212_def dep_def arr_def get_stop_def
      trip_101_def stop_time_def)

lemma overtaking_dep_arr:
  "dep journey_from_S1 = Some 300" "arr journey_from_S1 = Some 700"
  "dep journey_from_S2 = Some 200" "arr journey_from_S2 = Some 500"
  by (simp_all add: journey_from_S1_def journey_from_S2_def dep_def arr_def get_stop_def
      overtaking_trip_def stop_time_def)

lemma fixture_range_query_journeys:
  "run_range_raptor default_timetable remdups ''A'' ''F'' 0 50000 2 = Some [journey_111_212, journey_101_202]"
  using fixture_range_query by (simp add: journey_101_202_def journey_111_212_def)

text \<open>
  Claim C3, as stated, fails.  A candidate equal to the most recently accepted journey is
  not dominated by it, and is not appended.  The result of the range query on the fixture
  over the window from 0 to 50000 is not strictly increasing in arrival time in append
  order: the journey accepted first arrives at 5100, the one accepted after it at 1500.
  And the result need not be strictly decreasing in departure time: where a trip overtakes
  another trip of its route, the range query over the window from 0 to 1000 accepts
  journeys that depart at 300, at 200 and at 300 again (and arrive at 700, 500 and 700).
\<close>

theorem range_filter_counterexample:
  "accept_journey journey_101_202 [journey_101_202] = Some [journey_101_202]
   \<and> \<not> dominated_by journey_101_202 journey_101_202
   \<and> run_range_raptor default_timetable remdups ''A'' ''F'' 0 50000 2 = Some [journey_111_212, journey_101_202]
   \<and> arr journey_111_212 = Some 5100
   \<and> arr journey_101_202 = Some 1500
   \<and> \<not> (5100::int) < 1500
   \<and> run_range_raptor overtaking_timetable remdups ''O'' ''D'' 0 1000 1
       = Some [journey_from_S1, journey_from_S2, journey_from_S1]
   \<and> dep journey_from_S1 = Some 300
   \<and> dep journey_from_S2 = Some 200
   \<and> \<not> (200::int) > 300"
  using fixture_range_query_journeys fixture_dep_arr overtaking_range_query overtaking_dep_arr
  by (simp add: accept_journey_def is_dominated_def dominated_by_def journey_101_202_def)

text \<open>
  Claim C3, amended.  A candidate journey is appended to an empty result list, and to a
  list whose most recently accepted journey has no legs; to a list whose most recently
  accepted journey has a leg it is appended (the departure and arrival times of both
  journeys being defined) exactly when it is neither equal to that journey nor dominated
  by it.  Consequently, of two consecutive journeys of the result of
  a range query, the earlier accepted one has no legs, or the two differ and the later
  accepted one is not dominated by the one before it: where its departure time is no
  later, its arrival time is no later, and where its departure time is strictly earlier,
  its arrival time is strictly earlier.
\<close>

theorem range_filter:
  "accept_journey j [] = Some [j]
   \<and> (js \<noteq> [] \<and> legs (last js) = [] \<longrightarrow> accept_journey j js = Some (js @ [j]))
   \<and> (js \<noteq> [] \<and> legs (last js) \<noteq> [] \<and> dep (last js) = Some da \<and> arr (last js) = Some aa
        \<and> dep j = Some db \<and> arr j = Some ab \<longrightarrow>
        accept_journey j js = Some (if j = last js \<or> dominated_by j (last js) then js else js @ [j]))
   \<and> (run_range_raptor tt ord origin_station destination_station dep_secs_min dep_secs_max rounds = Some js' \<longrightarrow>
        successively (\<lambda>a b. legs a = [] \<or> (b \<noteq> a \<and> \<not> dominated_by b a)) js'
        \<and> successively (\<lambda>a b. legs a = [] \<or> accepted_after a b) js')"
proof (intro conjI impI)
  show "accept_journey j [] = Some [j]"
    by (simp add: accept_journey_def)
next
  assume "js \<noteq> [] \<and> legs (last js) = []"
  then show "accept_journey j js = Some (js @ [j])"
    by (simp add: accept_journey_def is_dominated_def)
next
  assume "js \<noteq> [] \<and> legs (last js) \<noteq> [] \<and> dep (last js) = Some da \<and> arr (last js) = Some aa
        \<and> dep j = Some db \<and> arr j = Some ab"
  then show "accept_journey j js = Some (if j = last js \<or> dominated_by j (last js) then js else js @ [j])"
    using accept_journey_eq [of js da aa j db ab] by simp
next
  assume r: "run_range_raptor tt ord origin_station destination_station dep_secs_min dep_secs_max rounds = Some js'"
  from r show "successively (\<lambda>a b. legs a = [] \<or> accepted_after a b) js'"
    by (rule run_range_raptor_successively) (rule is_dominated_False)
  from r show "successively (\<lambda>a b. legs a = [] \<or> (b \<noteq> a \<and> \<not> dominated_by b a)) js'"
    by (rule run_range_raptor_successively)
       (auto dest!: is_dominated_False dest: accepted_after_not_dominated)
qed

theorem range_filter_witness:
  "accept_journey journey_101_202 [] = Some [journey_101_202]
   \<and> [Journey []] \<noteq> [] \<and> legs (last [Journey []]) = []
   \<and> accept_journey journey_101_202 [Journey []] = Some [Journey [], journey_101_202]
   \<and> [journey_111_212] \<noteq> [] \<and> legs (last [journey_111_212]) \<noteq> []
   \<and> dep (last [journey_111_212]) = Some 3700 \<and> arr (last [journey_111_212]) = Some 5100
   \<and> dep journey_101_202 = Some 100 \<and> arr journey_101_202 = Some 1500
   \<and> accept_journey journey_101_202 [journey_111_212] = Some [journey_111_212, journey_101_202]
   \<and> run_range_raptor default_timetable remdups ''A'' ''F'' 0 50000 2 = Some [journey_111_212, journey_101_202]
   \<and> successively (\<lambda>a b. legs a = [] \<or> accepted_after a b) [journey_111_212, journey_101_202]"
  using fixture_dep_arr fixture_range_query_journeys
    range_filter [where j = journey_101_202 and js = "[journey_111_212]" and da = 3700 and aa = 5100
      and db = 100 and ab = 1500 and tt = default_timetable and ord = remdups and origin_station = "''A''"
      and destination_station = "''F''" and dep_secs_min = 0 and dep_secs_max = 50000 and rounds = 2
      and js' = "[journey_111_212, journey_101_202]"]
    range_filter [where j = journey_101_202 and js = "[Journey []]"]
  by (simp add: dominated_by_def journey_101_202_def journey_111_212_def)

section \<open>Every change of the state is a guarded write\<close>


lemma update_simps [simp]:
  "earliest_arrival_time (update (Some t) tr fs l) = t"
  "trip (update eat tr fs l) = tr"
  "from_stop (update eat tr (Some f) l) = Some f"
  "from_stop (update eat tr None l) = from_stop l"
  by (simp_all add: update_def Let_def split: option.splits)

lemma write_labelsE:
  assumes "write_labels k p t tr fs s = Some s'"
  obtains bk lk ls where "bag_round_stop s k = Some bk" "bk p = Some lk" "bag_star s p = Some ls"
    "s' = s\<lparr>bag_round_stop := (bag_round_stop s)(k \<mapsto> bk(p \<mapsto> update (Some t) tr fs lk)),
            bag_star := (bag_star s)(p \<mapsto> update (Some t) tr fs ls)\<rparr>"
  using assms by (auto simp: write_labels_def split: bind_splits)

lemma arrive_by_trip_cases:
  assumes "arrive_by_trip k p c = Some c'"
  shows "c' = c \<or>
    (\<exists>t x l s1. current_trip c = Some t \<and> get_stop t p = Some x \<and> bag_star (st c) p = Some l
       \<and> dts_arr x < earliest_arrival_time l \<and> dts_arr x < earliest_arrival_at_destination (st c)
       \<and> write_labels k p (dts_arr x) (Some (ByTrip t)) (boarding_stop c) (st c) = Some s1
       \<and> c' = c\<lparr>st := (if p \<in> set (destination_stops s1)
                        then s1\<lparr>earliest_arrival_at_destination := dts_arr x\<rparr> else s1),
                 new_stops := new_stops c @ [p]\<rparr>)"
  using assms
  by (auto simp: arrive_by_trip_def Let_def split: option.splits bind_splits if_splits)

lemma catch_trip_cases:
  assumes "catch_trip k r p c = Some c'"
  shows "c' = c \<or>
    (\<exists>bp lp e. bag_round_stop (st c) (k - 1) = Some bp \<and> bp p = Some lp
       \<and> earliest_trip_stop_time r (earliest_arrival_time lp) p = Some e
       \<and> c' = c\<lparr>current_trip := Some (fst e), boarding_stop := Some p\<rparr>)"
  using assms
  by (auto simp: catch_trip_def Let_def split: option.splits bind_splits if_splits)

lemma catch_trip_st: "catch_trip k r p c = Some c' \<Longrightarrow> st c' = st c \<and> new_stops c' = new_stops c"
  by (auto dest!: catch_trip_cases)

lemma guarded_writeI1:
  "bag_star s p = Some l \<Longrightarrow> t < earliest_arrival_time l \<Longrightarrow> write_labels k p t tr fs s = Some s1
     \<Longrightarrow> guarded_write k s s1"
  unfolding guarded_write_def by blast

lemma guarded_writeI2:
  "bag_star s p = Some l \<Longrightarrow> t < earliest_arrival_time l \<Longrightarrow> write_labels k p t tr fs s = Some s1
     \<Longrightarrow> t < earliest_arrival_at_destination s
     \<Longrightarrow> guarded_write k s (s1\<lparr>earliest_arrival_at_destination := t\<rparr>)"
  unfolding guarded_write_def by blast

lemma arrive_by_trip_step:
  assumes "arrive_by_trip k p c = Some c'"
  shows "(guarded_write k)\<^sup>=\<^sup>= (st c) (st c')"
  using arrive_by_trip_cases [OF assms]
  by (auto intro: guarded_writeI1 guarded_writeI2)

lemma traverse_stop_step:
  "traverse_stop k r p c = Some c' \<Longrightarrow> (guarded_write k)\<^sup>*\<^sup>* (st c) (st c')"
  by (auto simp: traverse_stop_def split: bind_splits dest!: arrive_by_trip_step catch_trip_st)

lemma traverse_route_step:
  assumes "traverse_route k rp sn = Some sn'"
  shows "(guarded_write k)\<^sup>*\<^sup>* (fst sn) (fst sn')"
proof -
  from assms obtain i c where
    c: "for_each (traverse_stop k (fst rp)) (drop i (route_stops (fst rp)))
          \<lparr>st = fst sn, new_stops = snd sn, current_trip = None, boarding_stop = None\<rparr> = Some c"
    and sn': "sn' = (st c, new_stops c)"
    by (auto simp: traverse_route_def Let_def split: bind_splits)
  have "(guarded_write k)\<^sup>*\<^sup>* (st \<lparr>st = fst sn, new_stops = snd sn, current_trip = None, boarding_stop = None\<rparr>) (st c)"
    by (rule for_each_steps [OF c]) (rule traverse_stop_step)
  with sn' show ?thesis by simp
qed

lemma traverse_routes_step:
  "traverse_routes k rms s = Some sn' \<Longrightarrow> (guarded_write k)\<^sup>*\<^sup>* s (fst sn')"
  unfolding traverse_routes_def
  by (drule for_each_steps [where g = fst and R = "guarded_write k"]) (auto dest: traverse_route_step)

lemma relax_transfer_step:
  "relax_transfer k p t tr sn = Some sn' \<Longrightarrow> (guarded_write k)\<^sup>*\<^sup>* (fst sn) (fst sn')"
  by (auto simp: relax_transfer_def Let_def split: option.splits bind_splits if_splits
      intro!: r_into_rtranclp intro: guarded_writeI1)

lemma transfers_of_stop_step:
  "transfers_of_stop tt k p sn = Some sn' \<Longrightarrow> (guarded_write k)\<^sup>*\<^sup>* (fst sn) (fst sn')"
  by (auto simp: transfers_of_stop_def Let_def split: bind_splits
      dest!: for_each_steps [where g = fst and R = "guarded_write k"] dest: relax_transfer_step)

lemma add_transfer_time_step:
  "add_transfer_time tt k ms s = Some sn' \<Longrightarrow> (guarded_write k)\<^sup>*\<^sup>* s (fst sn')"
  unfolding add_transfer_time_def
  by (drule for_each_steps [where g = fst and R = "guarded_write k"]) (auto dest: transfers_of_stop_step)

lemma round_body_step:
  assumes "round_body tt ord k sn = Some sn'"
  shows "(guarded_write k)\<^sup>*\<^sup>* (fst sn) (fst sn')"
proof -
  from assms obtain q sn1 sn2 where "traverse_routes k q (fst sn) = Some sn1"
    "add_transfer_time tt k (snd sn1) (fst sn1) = Some sn2" "fst sn' = fst sn2"
    by (auto simp: round_body_def split: bind_splits)
  then show ?thesis
    by (auto dest!: traverse_routes_step add_transfer_time_step)
qed

section \<open>The global-best arrival times never increase\<close>


lemma kept_or_improved_refl: "kept_or_improved s s p"
  by (simp add: kept_or_improved_def split: option.splits)

lemma kept_or_improved_trans:
  "kept_or_improved s s1 p \<Longrightarrow> kept_or_improved s1 s2 p \<Longrightarrow> kept_or_improved s s2 p"
  by (auto simp: kept_or_improved_def split: option.splits)

lemma guarded_write_kept_or_improved:
  assumes "guarded_write k s s'"
  shows "kept_or_improved s s' p"
proof -
  from assms obtain q t tr fs l s1 where l: "bag_star s q = Some l" "t < earliest_arrival_time l"
    and w: "write_labels k q t tr fs s = Some s1"
    and s': "bag_star s' = bag_star s1"
    by (auto simp: guarded_write_def)
  from w l have "bag_star s1 = (bag_star s)(q \<mapsto> update (Some t) tr fs l)"
    by (auto elim!: write_labelsE)
  with l s' show ?thesis
    by (auto simp: kept_or_improved_def split: option.splits)
qed

lemma steps_kept_or_improved:
  "(guarded_write k)\<^sup>*\<^sup>* s s' \<Longrightarrow> kept_or_improved s s' p"
  by (induction rule: rtranclp_induct)
     (auto intro: kept_or_improved_refl kept_or_improved_trans guarded_write_kept_or_improved)

lemma run_rounds_kept_or_improved:
  "run_rounds tt ord k n sn = Some sn' \<Longrightarrow> kept_or_improved (fst sn) (fst sn') p"
proof (induction n arbitrary: k sn)
  case 0
  then show ?case by (simp add: kept_or_improved_refl)
next
  case (Suc n)
  show ?case
  proof (cases "length (snd sn) > 0")
    case True
    with Suc.prems obtain sn1 where b: "round_body tt ord k sn = Some sn1"
      and r: "run_rounds tt ord (k + 1) n sn1 = Some sn'"
      by (auto split: option.splits)
    from b have "kept_or_improved (fst sn) (fst sn1) p"
      by (auto dest!: round_body_step steps_kept_or_improved)
    then show ?thesis using Suc.IH [OF r] by (rule kept_or_improved_trans)
  next
    case False
    with Suc.prems show ?thesis by (simp add: kept_or_improved_refl)
  qed
qed

text \<open>
  Claim C8.  No operation of a round increases a stop's arrival time in the global-best
  table: across one step of a route traversal, one transfer relaxation, one whole round and
  any number of rounds, the global-best label of every stop is either kept or replaced by a
  label with a strictly smaller arrival time.
\<close>

theorem bag_star_never_increases:
  "(traverse_stop k r q c = Some c' \<longrightarrow> kept_or_improved (st c) (st c') p)
   \<and> (relax_transfer k q t tr sn = Some sn' \<longrightarrow> kept_or_improved (fst sn) (fst sn') p)
   \<and> (round_body tt ord k sn = Some sn' \<longrightarrow> kept_or_improved (fst sn) (fst sn') p)
   \<and> (run_rounds tt ord k n sn = Some sn' \<longrightarrow> kept_or_improved (fst sn) (fst sn') p)"
  by (auto dest: traverse_stop_step relax_transfer_step round_body_step
      steps_kept_or_improved run_rounds_kept_or_improved)

lemmas eval_defs = model_defs timetable_with_transfer_def transfer_C_X_def example_state_def
  example_labels_def kept_or_improved_def

theorem bag_star_never_increases_witness:
  "traverse_stop 1 \<lparr>route_stops = [Stop ''C'', Stop ''X'', Stop ''F''], route_trips = [trip_303 0 0]\<rparr> (Stop ''X'')
     \<lparr>st = example_state, new_stops = [], current_trip = Some (trip_303 0 0), boarding_stop = Some (Stop ''C'')\<rparr> \<noteq> None
   \<and> kept_or_improved example_state
       (st (the (traverse_stop 1 \<lparr>route_stops = [Stop ''C'', Stop ''X'', Stop ''F''], route_trips = [trip_303 0 0]\<rparr> (Stop ''X'')
          \<lparr>st = example_state, new_stops = [], current_trip = Some (trip_303 0 0), boarding_stop = Some (Stop ''C'')\<rparr>)))
       (Stop ''X'')
   \<and> relax_transfer 1 (Stop ''C'') 600 transfer_C_X (example_state, []) \<noteq> None
   \<and> kept_or_improved example_state
       (fst (the (relax_transfer 1 (Stop ''C'') 600 transfer_C_X (example_state, [])))) (Stop ''X'')
   \<and> round_body default_timetable remdups 1 (the (run_init default_timetable [Stop ''A''] station_F 100 2)) \<noteq> None
   \<and> kept_or_improved (fst (the (run_init default_timetable [Stop ''A''] station_F 100 2)))
       (fst (the (round_body default_timetable remdups 1 (the (run_init default_timetable [Stop ''A''] station_F 100 2)))))
       (Stop ''C'')
   \<and> run_rounds default_timetable remdups 1 2 (the (run_init default_timetable [Stop ''A''] station_F 100 2)) \<noteq> None
   \<and> kept_or_improved (fst (the (run_init default_timetable [Stop ''A''] station_F 100 2)))
       (fst (the (run_rounds default_timetable remdups 1 2 (the (run_init default_timetable [Stop ''A''] station_F 100 2)))))
       (Stop ''F'')"
proof -
  let ?r = "\<lparr>route_stops = [Stop ''C'', Stop ''X'', Stop ''F''], route_trips = [trip_303 0 0]\<rparr>"
  let ?c = "\<lparr>st = example_state, new_stops = [], current_trip = Some (trip_303 0 0), boarding_stop = Some (Stop ''C'')\<rparr>"
  let ?sn = "the (run_init default_timetable [Stop ''A''] station_F 100 2)"
  have 1: "traverse_stop 1 ?r (Stop ''X'') ?c \<noteq> None"
    by (simp add: eval_defs Let_def)
  have 2: "relax_transfer 1 (Stop ''C'') 600 transfer_C_X (example_state, []) \<noteq> None"
    by (simp add: eval_defs Let_def)
  have 3: "round_body default_timetable remdups 1 ?sn \<noteq> None"
    by (simp add: eval_defs Let_def)
  have 4: "run_rounds default_timetable remdups 1 2 ?sn \<noteq> None"
    by (simp add: eval_defs Let_def numeral_2_eq_2)
  show ?thesis
    using 1 2 3 4
      bag_star_never_increases [where k = 1 and r = ?r and q = "Stop ''X''" and c = ?c
        and c' = "the (traverse_stop 1 ?r (Stop ''X'') ?c)" and p = "Stop ''X''"]
      bag_star_never_increases [where k = 1 and q = "Stop ''C''" and t = 600 and tr = transfer_C_X
        and sn = "(example_state, [])"
        and sn' = "the (relax_transfer 1 (Stop ''C'') 600 transfer_C_X (example_state, []))"
        and p = "Stop ''X''"]
      bag_star_never_increases [where k = 1 and tt = default_timetable and ord = remdups and sn = ?sn
        and sn' = "the (round_body default_timetable remdups 1 ?sn)" and p = "Stop ''C''"]
      bag_star_never_increases [where k = 1 and tt = default_timetable and ord = remdups and sn = ?sn
        and n = 2 and sn' = "the (run_rounds default_timetable remdups 1 2 ?sn)" and p = "Stop ''F''"]
    by (simp del: run_rounds.simps)
qed

section \<open>The keys of the tables\<close>

lemma dom_overwrite: "m p = Some l \<Longrightarrow> dom (m(p \<mapsto> v)) = dom m"
  by auto

lemma guarded_write_dom:
  assumes "guarded_write k s s'"
  shows "dom (bag_star s') = dom (bag_star s)"
proof -
  from assms obtain q t tr fs l s1 where l: "bag_star s q = Some l"
    and w: "write_labels k q t tr fs s = Some s1"
    and s': "bag_star s' = bag_star s1"
    by (auto simp: guarded_write_def)
  from w l have "bag_star s1 = (bag_star s)(q \<mapsto> update (Some t) tr fs l)"
    by (auto elim!: write_labelsE)
  with l s' show ?thesis by (simp add: insert_absorb domIff)
qed

lemma steps_dom: "(guarded_write k)\<^sup>*\<^sup>* s s' \<Longrightarrow> dom (bag_star s') = dom (bag_star s)"
  by (induction rule: rtranclp_induct) (simp_all add: guarded_write_dom)

lemma run_rounds_dom:
  "run_rounds tt ord k n sn = Some sn' \<Longrightarrow> dom (bag_star (fst sn')) = dom (bag_star (fst sn))"
proof (induction n arbitrary: k sn)
  case 0
  then show ?case by simp
next
  case (Suc n)
  show ?case
  proof (cases "length (snd sn) > 0")
    case True
    with Suc.prems obtain sn1 where b: "round_body tt ord k sn = Some sn1"
      and r: "run_rounds tt ord (k + 1) n sn1 = Some sn'"
      by (auto split: option.splits)
    from b have "dom (bag_star (fst sn1)) = dom (bag_star (fst sn))"
      by (blast dest: round_body_step steps_dom)
    with Suc.IH [OF r] show ?thesis by simp
  next
    case False
    with Suc.prems show ?thesis by simp
  qed
qed

lemma dom_fold_labels: "dom (fold (\<lambda>p bag. bag(p \<mapsto> l)) ps m) = dom m \<union> set ps"
  by (induction ps arbitrary: m) auto

lemma fold_labels_apply:
  "fold (\<lambda>p bag. bag(p \<mapsto> l)) ps m q = (if q \<in> set ps then Some l else m q)"
  by (induction ps arbitrary: m) auto

lemma init_from_stop_dom:
  "init_from_stop d p sn = Some sn' \<Longrightarrow> dom (bag_star (fst sn')) = dom (bag_star (fst sn))"
  by (clarsimp simp: init_from_stop_def insert_absorb domIff split: bind_splits)

lemma run_init_dom:
  assumes "run_init tt from_stops to_station dep_secs rounds = Some sn"
  shows "dom (bag_star (fst sn)) = set (stops tt)"
proof -
  have "dom (bag_star (fst sn)) = dom (bag_star (fst (init_state tt to_station rounds, [])))"
    by (rule for_each_invariant [OF assms [unfolded run_init_def]]) (simp_all add: init_from_stop_dom)
  then show ?thesis by (simp add: init_state_def dom_fold_labels)
qed

lemma run_dom:
  assumes "run tt ord from_stops to_station dep_secs rounds = Some bag"
  shows "dom bag = set (stops tt)"
proof -
  from assms obtain sn0 sn where i: "run_init tt from_stops to_station dep_secs rounds = Some sn0"
    and r: "run_rounds tt ord 1 (nat rounds) sn0 = Some sn" and b: "bag = bag_star (fst sn)"
    by (auto simp: run_def run_upto_def split: bind_splits)
  from run_rounds_dom [OF r] run_init_dom [OF i] b show ?thesis by simp
qed


lemma guarded_write_round_dom:
  assumes "guarded_write k s s'"
  shows "map_option dom (bag_round_stop s' j) = map_option dom (bag_round_stop s j)"
proof -
  from assms obtain q t tr fs s1 where w: "write_labels k q t tr fs s = Some s1"
    and s': "bag_round_stop s' = bag_round_stop s1"
    by (auto simp: guarded_write_def)
  from w show ?thesis unfolding s'
    by (elim write_labelsE) (simp add: insert_absorb domIff)
qed

lemma steps_round_dom:
  "(guarded_write k)\<^sup>*\<^sup>* s s' \<Longrightarrow> map_option dom (bag_round_stop s' j) = map_option dom (bag_round_stop s j)"
  by (induction rule: rtranclp_induct) (simp_all add: guarded_write_round_dom)

lemma run_rounds_round_dom:
  "run_rounds tt ord k n sn = Some sn' \<Longrightarrow>
     map_option dom (bag_round_stop (fst sn') j) = map_option dom (bag_round_stop (fst sn) j)"
proof (induction n arbitrary: k sn)
  case 0
  then show ?case by simp
next
  case (Suc n)
  show ?case
  proof (cases "length (snd sn) > 0")
    case True
    with Suc.prems obtain sn1 where b: "round_body tt ord k sn = Some sn1"
      and r: "run_rounds tt ord (k + 1) n sn1 = Some sn'"
      by (auto split: option.splits)
    from b have "map_option dom (bag_round_stop (fst sn1) j) = map_option dom (bag_round_stop (fst sn) j)"
      by (blast dest: round_body_step steps_round_dom)
    with Suc.IH [OF r] show ?thesis by simp
  next
    case False
    with Suc.prems show ?thesis by simp
  qed
qed

lemma init_from_stop_round_dom:
  "init_from_stop d p sn = Some sn' \<Longrightarrow>
     map_option dom (bag_round_stop (fst sn') j) = map_option dom (bag_round_stop (fst sn) j)"
  by (clarsimp simp: init_from_stop_def insert_absorb domIff split: bind_splits)

lemma dom_empty_bag: "dom (empty_bag tt) = set (stops tt) \<union> station_key ` set (stations tt)"
  by (simp add: empty_bag_def dom_fold_labels)

lemma run_init_round_dom:
  assumes "run_init tt from_stops to_station dep_secs rounds = Some sn"
  shows "map_option dom (bag_round_stop (fst sn) j)
           = (if 0 \<le> j \<and> j \<le> rounds then Some (set (stops tt) \<union> station_key ` set (stations tt)) else None)"
proof -
  have "map_option dom (bag_round_stop (fst sn) j)
          = map_option dom (bag_round_stop (fst (init_state tt to_station rounds, [])) j)"
    by (rule for_each_invariant [OF assms [unfolded run_init_def]]) (simp_all add: init_from_stop_round_dom)
  then show ?thesis by (simp add: init_state_def dom_empty_bag)
qed

lemma run_upto_dom:
  assumes "run_upto tt ord from_stops to_station dep_secs rounds n = Some sn"
  shows "dom (bag_star (fst sn)) = set (stops tt)"
    and "map_option dom (bag_round_stop (fst sn) j)
           = (if 0 \<le> j \<and> j \<le> rounds then Some (set (stops tt) \<union> station_key ` set (stations tt)) else None)"
proof -
  from assms obtain sn0 where i: "run_init tt from_stops to_station dep_secs rounds = Some sn0"
    and r: "run_rounds tt ord 1 n sn0 = Some sn"
    by (auto simp: run_upto_def split: bind_splits)
  from run_rounds_dom [OF r] run_init_dom [OF i] show "dom (bag_star (fst sn)) = set (stops tt)"
    by simp
  from run_rounds_round_dom [OF r] run_init_round_dom [OF i]
  show "map_option dom (bag_round_stop (fst sn) j)
           = (if 0 \<le> j \<and> j \<le> rounds then Some (set (stops tt) \<union> station_key ` set (stations tt)) else None)"
    by simp
qed

section \<open>One transfer\<close>


lemma update_all:
  "update (Some t) tr (Some f) l = \<lparr>earliest_arrival_time = t, trip = tr, from_stop = Some f\<rparr>"
  by (cases l) (simp add: update_def)

lemma relax_transfer_eq:
  assumes "layovertime tr = Some c" and "bag_star s (transfer_to_stop tr) = Some previous"
    and "bag_round_stop s k = Some bag_k" and "bag_k (transfer_to_stop tr) = Some label_k"
  shows "relax_transfer k current_stop time_sofar tr (s, new) =
     Some (if time_sofar + c < earliest_arrival_time previous
           then (s\<lparr>bag_round_stop := (bag_round_stop s)(k \<mapsto> bag_k(transfer_to_stop tr \<mapsto>
                      \<lparr>earliest_arrival_time = time_sofar + c, trip = Some TRANSFER_TRIP, from_stop = Some current_stop\<rparr>)),
                   bag_star := (bag_star s)(transfer_to_stop tr \<mapsto>
                      \<lparr>earliest_arrival_time = time_sofar + c, trip = Some TRANSFER_TRIP, from_stop = Some current_stop\<rparr>)\<rparr>,
                 new @ [transfer_to_stop tr])
           else (s, new))"
  using assms
  by (simp add: relax_transfer_def write_labels_def update_all Let_def)

section \<open>Queries without origin stops\<close>

lemma run_rounds_no_marked: "run_rounds tt ord k n (s, []) = Some (s, [])"
  by (cases n) simp_all

lemma run_upto_empty:
  "run_upto tt ord [] to_station dep_secs rounds n = Some (init_state tt to_station rounds, [])"
  by (simp add: run_upto_def run_init_def run_rounds_no_marked)

lemma run_empty:
  "run tt ord [] to_station dep_secs rounds = Some (bag_star (init_state tt to_station rounds))"
  by (simp add: run_def run_upto_empty)

lemma init_bag_star:
  "bag_star (init_state tt to_station rounds) p = (if p \<in> set (stops tt) then Some Label else None)"
  by (simp add: init_state_def fold_labels_apply)

lemma best_stop_unreached:
  assumes "\<forall>p \<in> set to_stops. \<exists>l. bag p = Some l \<and> \<not> earliest_arrival_time l < LARGE_NUMBER"
  shows "for_each (best_stop_step bag) to_stops (None, LARGE_NUMBER) = Some (None, LARGE_NUMBER)"
  using assms by (induction to_stops) (auto simp: best_stop_step_def)

lemma best_stop_init:
  assumes "set to_stops \<subseteq> set (stops tt)"
  shows "best_stop_at_target_station to_stops (bag_star (init_state tt to_station rounds)) = Some None"
proof -
  have "\<forall>p \<in> set to_stops. \<exists>l. bag_star (init_state tt to_station rounds) p = Some l
          \<and> \<not> earliest_arrival_time l < LARGE_NUMBER"
    using assms by (auto simp: init_bag_star Label_def)
  then show ?thesis
    by (simp add: best_stop_at_target_station_def best_stop_unreached)
qed

lemma potential_dep_secs_empty: "potential_dep_secs tt [] lo hi = []"
  by (simp add: potential_dep_secs_def get_trip_stop_times_in_range_def)

text \<open>
  Claim C7.  With an empty set of origin stops, the initialisation marks no stop, so no
  round scans a route and the state stays the initial one; \<^verbatim>\<open>run\<close> returns the initial
  global-best table, in which every stop has the sentinel arrival time, no trip and no
  from-stop; the destination-stop selector returns the zero sentinel on that table (for
  destination stops of the timetable); the point query returns no journey and the range
  query returns the empty list.
\<close>

theorem empty_origin_set:
  "run_init tt [] to_station dep_secs rounds = Some (init_state tt to_station rounds, [])
   \<and> run_upto tt ord [] to_station dep_secs rounds n = Some (init_state tt to_station rounds, [])
   \<and> run tt ord [] to_station dep_secs rounds = Some (bag_star (init_state tt to_station rounds))
   \<and> (p \<in> set (stops tt) \<longrightarrow> bag_star (init_state tt to_station rounds) p
         = Some \<lparr>earliest_arrival_time = LARGE_NUMBER, trip = None, from_stop = None\<rparr>)
   \<and> (set to_stops \<subseteq> set (stops tt) \<longrightarrow>
        best_stop_at_target_station to_stops (bag_star (init_state tt to_station rounds)) = Some None)
   \<and> (get_station tt origin_station = Some orig \<and> station_stops orig = []
        \<and> get_station tt destination_station = Some dest \<and> set (station_stops dest) \<subseteq> set (stops tt) \<longrightarrow>
        run_raptor tt ord origin_station destination_station dep_secs rounds = Some None
        \<and> run_range_raptor tt ord origin_station destination_station dep_secs_min dep_secs_max rounds = Some [])"
  using best_stop_init [of to_stops tt to_station rounds] best_stop_init [of "station_stops dest" tt dest rounds]
  by (auto simp: run_init_def run_upto_empty run_empty init_bag_star Label_def run_raptor_def
      run_range_raptor_def get_stops_def potential_dep_secs_empty)


theorem empty_origin_set_witness:
  "Stop ''F'' \<in> set (stops timetable_with_empty_station)
   \<and> bag_star (init_state timetable_with_empty_station station_F 2) (Stop ''F'')
       = Some \<lparr>earliest_arrival_time = LARGE_NUMBER, trip = None, from_stop = None\<rparr>
   \<and> set [Stop ''F''] \<subseteq> set (stops timetable_with_empty_station)
   \<and> best_stop_at_target_station [Stop ''F''] (bag_star (init_state timetable_with_empty_station station_F 2)) = Some None
   \<and> get_station timetable_with_empty_station ''E'' = Some \<lparr>station_name = ''E'', station_stops = []\<rparr>
   \<and> get_station timetable_with_empty_station ''F'' = Some station_F
   \<and> run_raptor timetable_with_empty_station remdups ''E'' ''F'' 100 2 = Some None
   \<and> run_range_raptor timetable_with_empty_station remdups ''E'' ''F'' 0 50000 2 = Some []"
proof -
  have 1: "Stop ''F'' \<in> set (stops timetable_with_empty_station)"
    "set (station_stops station_F) \<subseteq> set (stops timetable_with_empty_station)"
    by (simp_all add: timetable_with_empty_station_def default_timetable_def station_F_def)
  have 2: "get_station timetable_with_empty_station ''E'' = Some \<lparr>station_name = ''E'', station_stops = []\<rparr>"
    "get_station timetable_with_empty_station ''F'' = Some station_F"
    by (simp_all add: get_station_def timetable_with_empty_station_def default_timetable_def station_F_def)
  show ?thesis
    using 1 2
      empty_origin_set [where tt = timetable_with_empty_station and to_station = station_F and rounds = 2
        and p = "Stop ''F''" and to_stops = "[Stop ''F'']" and origin_station = "''E''"
        and orig = "\<lparr>station_name = ''E'', station_stops = []\<rparr>" and destination_station = "''F''"
        and dest = station_F and ord = remdups and dep_secs = 100 and dep_secs_min = 0
        and dep_secs_max = 50000]
    by simp
qed

section \<open>The labels of a round\<close>

lemma run_rounds_Suc_end:
  "run_rounds tt ord k (Suc n) sn =
     (case run_rounds tt ord k n sn of
        None \<Rightarrow> None
      | Some sn' \<Rightarrow> if length (snd sn') > 0 then round_body tt ord (k + int n) sn' else Some sn')"
proof (induction n arbitrary: k sn)
  case 0
  show ?case by (simp split: option.splits)
next
  case (Suc n)
  have eq: "k + 1 + int n = k + int (Suc n)" by simp
  show ?case
  proof (cases "length (snd sn) > 0")
    case False
    then have "run_rounds tt ord k (Suc (Suc n)) sn = Some sn" "run_rounds tt ord k (Suc n) sn = Some sn"
      by simp_all
    with False show ?thesis by simp
  next
    case True
    show ?thesis
    proof (cases "round_body tt ord k sn")
      case None
      with True have "run_rounds tt ord k (Suc (Suc n)) sn = None" "run_rounds tt ord k (Suc n) sn = None"
        by simp_all
      then show ?thesis by simp
    next
      case (Some s1)
      with True have a: "run_rounds tt ord k (Suc (Suc n)) sn = run_rounds tt ord (k + 1) (Suc n) s1"
        and b: "run_rounds tt ord k (Suc n) sn = run_rounds tt ord (k + 1) n s1"
        by simp_all
      show ?thesis
        unfolding a b Suc.IH [of "k + 1" s1] eq ..
    qed
  qed
qed

lemma run_upto_Suc:
  "run_upto tt ord fs ts d r (Suc n) =
     (case run_upto tt ord fs ts d r n of
        None \<Rightarrow> None
      | Some sn' \<Rightarrow> if length (snd sn') > 0 then round_body tt ord (1 + int n) sn' else Some sn')"
  by (simp add: run_upto_def run_rounds_Suc_end split: bind_splits option.splits del: run_rounds.simps)

lemma guarded_write_other_round:
  assumes "guarded_write k s s'" and "j \<noteq> k"
  shows "bag_round_stop s' j = bag_round_stop s j"
  using assms by (auto simp: guarded_write_def elim!: write_labelsE)

lemma steps_other_round:
  "(guarded_write k)\<^sup>*\<^sup>* s s' \<Longrightarrow> j \<noteq> k \<Longrightarrow> bag_round_stop s' j = bag_round_stop s j"
  by (induction rule: rtranclp_induct) (simp_all add: guarded_write_other_round)

lemma run_rounds_later_round:
  "run_rounds tt ord k n sn = Some sn' \<Longrightarrow> k + int n \<le> j \<Longrightarrow>
     bag_round_stop (fst sn') j = bag_round_stop (fst sn) j"
proof (induction n arbitrary: k sn)
  case 0
  then show ?case by simp
next
  case (Suc n)
  show ?case
  proof (cases "length (snd sn) > 0")
    case True
    with Suc.prems obtain sn1 where b: "round_body tt ord k sn = Some sn1"
      and r: "run_rounds tt ord (k + 1) n sn1 = Some sn'"
      by (auto split: option.splits)
    from b Suc.prems(2) have "bag_round_stop (fst sn1) j = bag_round_stop (fst sn) j"
      by (intro steps_other_round [OF round_body_step]) auto
    moreover from Suc.prems(2) have "k + 1 + int n \<le> j" by simp
    ultimately show ?thesis using Suc.IH [OF r] by simp
  next
    case False
    with Suc.prems show ?thesis by simp
  qed
qed

lemma init_from_stop_other_round:
  "init_from_stop d p sn = Some sn' \<Longrightarrow> j \<noteq> 0 \<Longrightarrow> bag_round_stop (fst sn') j = bag_round_stop (fst sn) j"
  by (auto simp: init_from_stop_def split: bind_splits)

lemma run_init_other_round:
  assumes "run_init tt fs ts d r = Some sn" and "j \<noteq> 0"
  shows "bag_round_stop (fst sn) j = (if 0 \<le> j \<and> j \<le> r then Some (empty_bag tt) else None)"
proof -
  have "bag_round_stop (fst sn) j = bag_round_stop (fst (init_state tt ts r, [])) j"
    by (rule for_each_invariant [OF assms(1) [unfolded run_init_def]])
       (simp_all add: init_from_stop_other_round assms(2))
  then show ?thesis by (simp add: init_state_def)
qed

lemma run_upto_later_round:
  assumes "run_upto tt ord fs ts d r n = Some sn" and "int n < j"
  shows "bag_round_stop (fst sn) j = (if j \<le> r then Some (empty_bag tt) else None)"
proof -
  from assms(1) obtain sn0 where i: "run_init tt fs ts d r = Some sn0"
    and rr: "run_rounds tt ord 1 n sn0 = Some sn"
    by (auto simp: run_upto_def split: bind_splits)
  from assms(2) have "1 + int n \<le> j" "j \<noteq> 0" "0 \<le> j" by simp_all
  with run_rounds_later_round [OF rr] run_init_other_round [OF i] show ?thesis by simp
qed

lemma empty_bag_label: "empty_bag tt p = Some l \<Longrightarrow> l = Label"
  by (simp add: empty_bag_def fold_labels_apply split: if_splits)



lemma guarded_write_round_sync:
  assumes "guarded_write k s s'" and "round_sync k s p"
  shows "round_sync k s' p"
proof -
  from assms(1) obtain q t tr fs s1 where w: "write_labels k q t tr fs s = Some s1"
    and s': "bag_round_stop s' = bag_round_stop s1" "bag_star s' = bag_star s1"
    by (auto simp: guarded_write_def)
  from w assms(2) show ?thesis unfolding round_sync_def s'
    by (elim write_labelsE) (auto split: option.splits)
qed

lemma steps_round_sync:
  "(guarded_write k)\<^sup>*\<^sup>* s s' \<Longrightarrow> round_sync k s p \<Longrightarrow> round_sync k s' p"
  by (induction rule: rtranclp_induct) (auto intro: guarded_write_round_sync)

lemma fresh_round_sync:
  "bag_round_stop s k = (if c then Some (empty_bag tt) else None) \<Longrightarrow> round_sync k s p"
  by (auto simp: round_sync_def split: option.splits dest: empty_bag_label)

lemma fresh_round_strict:
  "bag_round_stop s k = (if c then Some (empty_bag tt) else None) \<Longrightarrow> round_strict k s p"
  by (auto simp: round_strict_def split: option.splits dest: empty_bag_label)

lemma guarded_write_star_below_rounds:
  assumes "guarded_write k s s'" and "star_below_rounds s"
  shows "star_below_rounds s'"
proof -
  from assms(1) obtain q t tr fs l s1 where l: "bag_star s q = Some l" "t < earliest_arrival_time l"
    and w: "write_labels k q t tr fs s = Some s1"
    and s': "bag_round_stop s' = bag_round_stop s1" "bag_star s' = bag_star s1"
    by (auto simp: guarded_write_def)
  from w obtain bk lk where bk: "bag_round_stop s k = Some bk" "bk q = Some lk"
    and r: "bag_round_stop s1 = (bag_round_stop s)(k \<mapsto> bk(q \<mapsto> update (Some t) tr fs lk))"
    and st: "bag_star s1 = (bag_star s)(q \<mapsto> update (Some t) tr fs l)"
    using l by (auto elim!: write_labelsE)
  show ?thesis
    unfolding star_below_rounds_def s' r st
  proof (intro allI impI)
    fix j bag_j p label_j l'
    assume a: "((bag_round_stop s)(k \<mapsto> bk(q \<mapsto> update (Some t) tr fs lk))) j = Some bag_j"
      "bag_j p = Some label_j" "((bag_star s)(q \<mapsto> update (Some t) tr fs l)) p = Some l'"
    show "earliest_arrival_time l' \<le> earliest_arrival_time label_j"
    proof (cases "p = q")
      case True
      with a(3) have e: "earliest_arrival_time l' = t" by auto
      show ?thesis
      proof (cases "j = k")
        case True
        with a(1,2) \<open>p = q\<close> have "earliest_arrival_time label_j = t" by auto
        with e show ?thesis by simp
      next
        case False
        with a(1,2) \<open>p = q\<close> have "bag_round_stop s j = Some bag_j" "bag_j q = Some label_j" by auto
        with assms(2) l(1) have "earliest_arrival_time l \<le> earliest_arrival_time label_j"
          unfolding star_below_rounds_def by blast
        with e l(2) show ?thesis by simp
      qed
    next
      case False
      with a(3) have l': "bag_star s p = Some l'" by auto
      from False a(1,2) bk obtain b0 where "bag_round_stop s j = Some b0" "b0 p = Some label_j"
        by (cases "j = k") auto
      with assms(2) l' show ?thesis unfolding star_below_rounds_def by blast
    qed
  qed
qed

lemma guarded_write_round_strict:
  assumes "guarded_write k s s'" and "star_below_rounds s" and "round_strict k s p"
  shows "round_strict k s' p"
proof -
  from assms(1) obtain q t tr fs l s1 where l: "bag_star s q = Some l" "t < earliest_arrival_time l"
    and w: "write_labels k q t tr fs s = Some s1"
    and s': "bag_round_stop s' = bag_round_stop s1"
    by (auto simp: guarded_write_def)
  from w obtain bk lk where bk: "bag_round_stop s k = Some bk" "bk q = Some lk"
    and r: "bag_round_stop s1 = (bag_round_stop s)(k \<mapsto> bk(q \<mapsto> update (Some t) tr fs lk))"
    by (auto elim!: write_labelsE)
  show ?thesis
  proof (cases "p = q")
    case False
    with assms(3) bk show ?thesis
      unfolding round_strict_def s' r by (auto split: option.splits)
  next
    case True
    have "t < earliest_arrival_time lp"
      if "bag_round_stop s (k - 1) = Some bp" "bp q = Some lp" for bp lp
    proof -
      from assms(2) that l(1) have "earliest_arrival_time l \<le> earliest_arrival_time lp"
        unfolding star_below_rounds_def by blast
      with l(2) show ?thesis by simp
    qed
    with True show ?thesis
      unfolding round_strict_def s' r by (simp split: option.splits)
  qed
qed

lemma steps_star_below_rounds:
  "(guarded_write k)\<^sup>*\<^sup>* s s' \<Longrightarrow> star_below_rounds s \<Longrightarrow> star_below_rounds s'"
  by (induction rule: rtranclp_induct) (auto intro: guarded_write_star_below_rounds)

lemma steps_round_strict:
  "(guarded_write k)\<^sup>*\<^sup>* s s' \<Longrightarrow> star_below_rounds s \<Longrightarrow> round_strict k s p \<Longrightarrow> round_strict k s' p"
proof (induction rule: rtranclp_induct)
  case base
  then show ?case by simp
next
  case (step y z)
  then show ?case
    by (blast intro: guarded_write_round_strict steps_star_below_rounds)
qed

lemma run_rounds_star_below_rounds:
  "run_rounds tt ord k n sn = Some sn' \<Longrightarrow> star_below_rounds (fst sn) \<Longrightarrow> star_below_rounds (fst sn')"
proof (induction n arbitrary: k sn)
  case 0
  then show ?case by simp
next
  case (Suc n)
  show ?case
  proof (cases "length (snd sn) > 0")
    case True
    with Suc.prems obtain sn1 where b: "round_body tt ord k sn = Some sn1"
      and r: "run_rounds tt ord (k + 1) n sn1 = Some sn'"
      by (auto split: option.splits)
    from b Suc.prems(2) have "star_below_rounds (fst sn1)"
      by (blast dest: round_body_step steps_star_below_rounds)
    with Suc.IH [OF r] show ?thesis by simp
  next
    case False
    with Suc.prems show ?thesis by simp
  qed
qed

lemma init_state_init_labels: "init_labels d (init_state tt ts r)"
  by (auto simp: init_labels_def init_state_def fold_labels_apply Label_def
      split: if_splits dest!: empty_bag_label)

lemma init_from_stop_init_labels:
  assumes "init_from_stop d p sn = Some sn'" and "init_labels d (fst sn)"
  shows "init_labels d (fst sn')"
proof -
  from assms(1) obtain b0 l0 ls where b0: "bag_round_stop (fst sn) 0 = Some b0" "b0 p = Some l0"
    and ls: "bag_star (fst sn) p = Some ls"
    and r: "bag_round_stop (fst sn') = (bag_round_stop (fst sn))(0 \<mapsto> b0(p \<mapsto> update (Some d) None None l0))"
    and s: "bag_star (fst sn') = (bag_star (fst sn))(p \<mapsto> update (Some d) None None ls)"
    by (auto simp: init_from_stop_def split: bind_splits)
  from assms(2) have 1: "\<And>q l. bag_star (fst sn) q = Some l \<Longrightarrow>
       earliest_arrival_time l = d \<or> earliest_arrival_time l = LARGE_NUMBER"
    and 2: "\<And>j bag_j q label_j. bag_round_stop (fst sn) j = Some bag_j \<Longrightarrow> bag_j q = Some label_j \<Longrightarrow>
       earliest_arrival_time label_j = LARGE_NUMBER
       \<or> (earliest_arrival_time label_j = d \<and> (\<forall>l. bag_star (fst sn) q = Some l \<longrightarrow> earliest_arrival_time l = d))"
    unfolding init_labels_def by blast+
  show ?thesis
    unfolding init_labels_def r s
  proof (intro conjI allI impI)
    fix q l
    assume "((bag_star (fst sn))(p \<mapsto> update (Some d) None None ls)) q = Some l"
    then show "earliest_arrival_time l = d \<or> earliest_arrival_time l = LARGE_NUMBER"
      using 1 [of q l] by (auto split: if_splits)
  next
    fix j bag_j q label_j
    assume a: "((bag_round_stop (fst sn))(0 \<mapsto> b0(p \<mapsto> update (Some d) None None l0))) j = Some bag_j"
      "bag_j q = Some label_j"
    show "earliest_arrival_time label_j = LARGE_NUMBER
       \<or> (earliest_arrival_time label_j = d
           \<and> (\<forall>l. ((bag_star (fst sn))(p \<mapsto> update (Some d) None None ls)) q = Some l \<longrightarrow> earliest_arrival_time l = d))"
    proof (cases "q = p")
      case True
      show ?thesis
      proof (cases "j = 0")
        case True
        with a \<open>q = p\<close> show ?thesis by auto
      next
        case False
        with a have "bag_round_stop (fst sn) j = Some bag_j" by simp
        from 2 [OF this a(2)] \<open>q = p\<close> show ?thesis by auto
      qed
    next
      case False
      with a b0 obtain b1 where "bag_round_stop (fst sn) j = Some b1" "b1 q = Some label_j"
        by (cases "j = 0") auto
      from 2 [OF this] False show ?thesis by auto
    qed
  qed
qed

lemma init_labels_star_below_rounds:
  "init_labels d s \<Longrightarrow> d \<le> LARGE_NUMBER \<Longrightarrow> star_below_rounds s"
  unfolding init_labels_def star_below_rounds_def
  by (intro allI impI) (metis order_refl)

lemma run_init_star_below_rounds:
  assumes "run_init tt fs ts d r = Some sn" and "d \<le> LARGE_NUMBER"
  shows "star_below_rounds (fst sn)"
proof -
  have "init_labels d (fst sn)"
    by (rule for_each_invariant [OF assms(1) [unfolded run_init_def]])
       (auto intro: init_state_init_labels init_from_stop_init_labels)
  then show ?thesis using assms(2) by (rule init_labels_star_below_rounds)
qed

lemma run_upto_star_below_rounds:
  assumes "run_upto tt ord fs ts d r n = Some sn" and "d \<le> LARGE_NUMBER"
  shows "star_below_rounds (fst sn)"
  using assms
  by (auto simp: run_upto_def split: bind_splits
      dest!: run_init_star_below_rounds dest: run_rounds_star_below_rounds)

lemma round_labels_aux:
  assumes a: "run_upto tt ord fs ts d r n = Some sn"
    and b: "run_upto tt ord fs ts d r (Suc n) = Some sn'"
  shows "kept_or_improved (fst sn) (fst sn') p"
    and "round_sync (int (Suc n)) (fst sn') p"
    and "d \<le> LARGE_NUMBER \<Longrightarrow> round_strict (int (Suc n)) (fst sn') p"
proof -
  have fresh: "bag_round_stop (fst sn) (int (Suc n)) = (if int (Suc n) \<le> r then Some (empty_bag tt) else None)"
    by (rule run_upto_later_round [OF a]) simp
  from a b have steps: "(guarded_write (int (Suc n)))\<^sup>*\<^sup>* (fst sn) (fst sn')"
    by (auto simp: run_upto_Suc add.commute split: if_splits dest: round_body_step)
  from steps show "kept_or_improved (fst sn) (fst sn') p"
    by (rule steps_kept_or_improved)
  from steps fresh_round_sync [OF fresh] show "round_sync (int (Suc n)) (fst sn') p"
    by (rule steps_round_sync)
  assume "d \<le> LARGE_NUMBER"
  with a have "star_below_rounds (fst sn)" by (rule run_upto_star_below_rounds)
  with steps show "round_strict (int (Suc n)) (fst sn') p"
    using fresh_round_strict [OF fresh] by (rule steps_round_strict)
qed

text \<open>
  Claim C1, amended.  For every stop \<open>p\<close> and every round \<open>k = n + 1\<close> of a point query:
  the global-best label of \<open>p\<close> after round \<open>k\<close> is the one after round \<open>k - 1\<close> or has a
  strictly smaller arrival time; and the round-\<open>k\<close> label of \<open>p\<close> is either the default label
  (round \<open>k\<close> did not improve \<open>p\<close>), or its arrival time is the global-best arrival time of
  \<open>p\<close> after round \<open>k\<close> and, when the departure time does not exceed the sentinel, strictly
  smaller than the arrival time of the round-\<open>(k - 1)\<close> label of \<open>p\<close>.
\<close>

theorem round_labels:
  "run_upto tt ord from_stops to_station dep_secs rounds n = Some sn
   \<and> run_upto tt ord from_stops to_station dep_secs rounds (Suc n) = Some sn'
   \<longrightarrow> kept_or_improved (fst sn) (fst sn') p
       \<and> (bag_round_stop (fst sn') (int (Suc n)) = Some bag_k \<and> bag_k p = Some label_k \<and> label_k \<noteq> Label
          \<longrightarrow> (\<exists>l. bag_star (fst sn') p = Some l \<and> earliest_arrival_time label_k = earliest_arrival_time l)
              \<and> (dep_secs \<le> LARGE_NUMBER \<and> bag_round_stop (fst sn') (int n) = Some bag_prev
                  \<and> bag_prev p = Some label_prev
                 \<longrightarrow> earliest_arrival_time label_k < earliest_arrival_time label_prev))"
  using round_labels_aux [of tt ord from_stops to_station dep_secs rounds n sn sn' p]
  by (auto simp: round_sync_def round_strict_def split: option.splits)


lemma fixture_rounds:
  "run_upto default_timetable remdups [Stop ''A''] station_F 100 2 0 \<noteq> None"
  "run_upto default_timetable remdups [Stop ''A''] station_F 100 2 1 \<noteq> None"
  "run_upto default_timetable remdups [Stop ''A''] station_F 100 2 2 \<noteq> None"
  by (simp_all add: model_defs Let_def numeral_2_eq_2)

lemma fixture_round_1:
  "bag_round_stop (fst (the (run_upto default_timetable remdups [Stop ''A''] station_F 100 2 1))) 1 \<noteq> None"
  "the (bag_round_stop (fst (the (run_upto default_timetable remdups [Stop ''A''] station_F 100 2 1))) 1) (Stop ''C'')
     = Some \<lparr>earliest_arrival_time = 600, trip = Some (ByTrip (trip_101 0 0)), from_stop = Some (Stop ''A'')\<rparr>"
  "bag_round_stop (fst (the (run_upto default_timetable remdups [Stop ''A''] station_F 100 2 1))) 0 \<noteq> None"
  "the (bag_round_stop (fst (the (run_upto default_timetable remdups [Stop ''A''] station_F 100 2 1))) 0) (Stop ''C'')
     = Some Label"
  by (simp_all add: model_defs Let_def)

theorem round_labels_witness:
  "run_upto default_timetable remdups [Stop ''A''] station_F 100 2 0 \<noteq> None
   \<and> run_upto default_timetable remdups [Stop ''A''] station_F 100 2 (Suc 0) \<noteq> None
   \<and> the (bag_round_stop (fst (the (run_upto default_timetable remdups [Stop ''A''] station_F 100 2 (Suc 0)))) 1) (Stop ''C'')
       = Some \<lparr>earliest_arrival_time = 600, trip = Some (ByTrip (trip_101 0 0)), from_stop = Some (Stop ''A'')\<rparr>
   \<and> \<lparr>earliest_arrival_time = 600, trip = Some (ByTrip (trip_101 0 0)), from_stop = Some (Stop ''A'')\<rparr> \<noteq> Label
   \<and> (100::int) \<le> LARGE_NUMBER
   \<and> the (bag_round_stop (fst (the (run_upto default_timetable remdups [Stop ''A''] station_F 100 2 (Suc 0)))) 0) (Stop ''C'')
       = Some Label
   \<and> kept_or_improved (fst (the (run_upto default_timetable remdups [Stop ''A''] station_F 100 2 0)))
       (fst (the (run_upto default_timetable remdups [Stop ''A''] station_F 100 2 (Suc 0)))) (Stop ''C'')
   \<and> (600::int) < earliest_arrival_time Label"
proof -
  let ?sn = "the (run_upto default_timetable remdups [Stop ''A''] station_F 100 2 0)"
  let ?sn' = "the (run_upto default_timetable remdups [Stop ''A''] station_F 100 2 (Suc 0))"
  let ?l = "\<lparr>earliest_arrival_time = 600, trip = Some (ByTrip (trip_101 0 0)), from_stop = Some (Stop ''A'')\<rparr>"
  have 1: "?l \<noteq> Label" "(100::int) \<le> LARGE_NUMBER"
    by (simp_all add: Label_def LARGE_NUMBER_def)
  show ?thesis
    using 1 fixture_rounds(1,2) fixture_round_1
      round_labels [where tt = default_timetable and ord = remdups and from_stops = "[Stop ''A'']"
        and to_station = station_F and dep_secs = 100 and rounds = 2 and n = 0 and sn = ?sn and sn' = ?sn'
        and p = "Stop ''C''" and bag_k = "the (bag_round_stop (fst ?sn') 1)" and label_k = ?l
        and bag_prev = "the (bag_round_stop (fst ?sn') 0)" and label_prev = Label]
    by simp
qed

text \<open>
  Claim C1, as stated, fails: in the table of the fixture query after its two rounds, the
  arrival time recorded for the origin stop A at round 1 is the sentinel, which is greater
  than the arrival time 100 recorded for A at round 0.
\<close>

theorem round_labels_counterexample:
  "run_upto default_timetable remdups [Stop ''A''] station_F 100 2 2 \<noteq> None
   \<and> round_arrival (fst (the (run_upto default_timetable remdups [Stop ''A''] station_F 100 2 2))) 0 (Stop ''A'') = Some 100
   \<and> round_arrival (fst (the (run_upto default_timetable remdups [Stop ''A''] station_F 100 2 2))) 1 (Stop ''A'')
       = Some LARGE_NUMBER
   \<and> \<not> LARGE_NUMBER \<le> (100::int)"
  by (simp add: round_arrival_def model_defs Let_def numeral_2_eq_2)

section \<open>Trips along a route\<close>

lemma for_each_invariant_rest:
  assumes "for_each f xs s = Some s'" and "P xs s"
    and "\<And>x rest a b. P (x # rest) a \<Longrightarrow> f x a = Some b \<Longrightarrow> P rest b"
  shows "P [] s'"
  using assms(1,2)
proof (induction xs arbitrary: s)
  case Nil
  then show ?case by simp
next
  case (Cons x xs)
  from Cons.prems(1) obtain s1 where s1: "f x s = Some s1" and rest: "for_each f xs s1 = Some s'"
    by (auto split: option.splits)
  from assms(3) [OF Cons.prems(2) s1] have "P xs s1" .
  with rest show ?case by (rule Cons.IH)
qed

lemma earliest_trip_stop_time_Some:
  assumes "earliest_trip_stop_time r d p = Some e"
  shows "fst e \<in> set (route_trips r)" and "get_stop (fst e) p = Some (snd e)" and "d \<le> dts_dep (snd e)"
proof -
  from assms have m: "e \<in> set (trips_at r p)" and d: "d \<le> dts_dep (snd e)"
    by (auto simp: earliest_trip_stop_time_def find_Some_iff)
  from d show "d \<le> dts_dep (snd e)" .
  from m show "fst e \<in> set (route_trips r)" "get_stop (fst e) p = Some (snd e)"
    by (auto simp: trips_at_def split: option.splits)
qed

lemma sorted_times:
  assumes "sorted (concat (map (\<lambda>x. [dts_arr x, dts_dep x]) (xs1 @ x # xs2)))" and "y \<in> set xs2"
  shows "dts_dep x \<le> dts_arr y"
  using assms by (induction xs1) (auto simp: sorted_append)

lemma find_SomeD: "find P xs = Some x \<Longrightarrow> x \<in> set xs \<and> P x"
  by (induction xs) (auto split: if_splits)

lemma get_stop_Some:
  assumes "get_stop t p = Some x"
  shows "x \<in> set (stop_times t)" and "tst_stop x = p"
  using find_SomeD [of "\<lambda>x. tst_stop x = p" "rev (stop_times t)" x] assms
  by (simp_all add: get_stop_def)

lemma trip_times_along_route:
  assumes follow: "map tst_stop (stop_times t) = pre @ p # rest" and dist: "distinct (pre @ p # rest)"
    and sorted: "sorted (times_of t)"
    and x: "get_stop t p = Some x" and q: "q \<in> set rest" and y: "get_stop t q = Some y"
  shows "dts_dep x \<le> dts_arr y"
proof -
  from follow obtain xs1 x' xs2 where xs: "stop_times t = xs1 @ x' # xs2"
    and m: "map tst_stop xs1 = pre" "tst_stop x' = p" "map tst_stop xs2 = rest"
    by (auto simp: map_eq_append_conv map_eq_Cons_conv)
  from dist q have d: "p \<notin> set pre" "p \<notin> set rest" "q \<notin> set pre" "q \<noteq> p"
    by auto
  from d(1,2) m(1,3) have np: "\<forall>z \<in> set xs1 \<union> set xs2. tst_stop z \<noteq> p"
    by auto
  from get_stop_Some [OF x] np have "x = x'"
    unfolding xs by auto
  from d(3,4) m(1,2) have nq: "\<forall>z \<in> set (xs1 @ [x']). tst_stop z \<noteq> q"
    by auto
  from get_stop_Some [OF y] nq have "y \<in> set xs2"
    unfolding xs by auto
  with sorted show ?thesis
    unfolding times_of_def xs \<open>x = x'\<close> by (rule sorted_times)
qed
section \<open>The transfer phase\<close>

lemma written_simps:
  "bag_star (written k q l bk s) x = (if x = q then Some l else bag_star s x)"
  "bag_round_stop s k = Some bk \<Longrightarrow> round_label (written k q l bk s) k x = (if x = q then Some l else round_label s k x)"
  "bag_round_stop s k = Some bk \<Longrightarrow>
     round_arrival (written k q l bk s) k x = (if x = q then Some (earliest_arrival_time l) else round_arrival s k x)"
  "j \<noteq> k \<Longrightarrow> bag_round_stop (written k q l bk s) j = bag_round_stop s j"
  "earliest_arrival_at_destination (written k q l bk s) = earliest_arrival_at_destination s"
  by (simp_all add: written_def round_label_def round_arrival_def)

lemma relax_transfer_cases:
  assumes "relax_transfer k p tp tr (s, new) = Some sn'"
  shows "(sn' = (s, new)
          \<and> (layovertime tr = None
              \<or> (\<exists>c l. layovertime tr = Some c \<and> bag_star s (transfer_to_stop tr) = Some l
                    \<and> \<not> tp + c < earliest_arrival_time l)))
       \<or> (\<exists>c l bk lk. layovertime tr = Some c \<and> bag_star s (transfer_to_stop tr) = Some l
             \<and> tp + c < earliest_arrival_time l \<and> bag_round_stop s k = Some bk
             \<and> bk (transfer_to_stop tr) = Some lk
             \<and> sn' = (written k (transfer_to_stop tr) (transfer_label (tp + c) p) bk s,
                      new @ [transfer_to_stop tr]))"
  using assms
  by (auto simp: relax_transfer_def write_labels_def update_all written_def transfer_label_def Let_def
      split: option.splits bind_splits if_splits)

lemma written_guarded:
  assumes "bag_star s q = Some l" "t < earliest_arrival_time l" "bag_round_stop s k = Some bk" "bk q = Some lk"
  shows "guarded_write k s (written k q (transfer_label t p) bk s)"
proof -
  from assms have "write_labels k q t (Some TRANSFER_TRIP) (Some p) s = Some (written k q (transfer_label t p) bk s)"
    by (simp add: write_labels_def update_all written_def transfer_label_def)
  with assms(1,2) show ?thesis by (rule guarded_writeI1)
qed

lemma write_labels_marked_sync:
  assumes "write_labels k q t tr fs s = Some s1" and "marked_sync k s ps"
  shows "marked_sync k s1 (ps @ [q])" and "marked_sync k (s1\<lparr>earliest_arrival_at_destination := v\<rparr>) (ps @ [q])"
  using assms unfolding marked_sync_def
  by (auto elim!: write_labelsE)

lemma guarded_write_marked_sync:
  assumes "guarded_write k s s'" and "marked_sync k s ps"
  shows "marked_sync k s' ps"
proof -
  from assms(1) obtain q t tr fs s1 where w: "write_labels k q t tr fs s = Some s1"
    and s': "bag_round_stop s' = bag_round_stop s1" "bag_star s' = bag_star s1"
    by (auto simp: guarded_write_def)
  from w assms(2) show ?thesis unfolding marked_sync_def s'
    by (elim write_labelsE) auto
qed

lemma steps_marked_sync:
  "(guarded_write k)\<^sup>*\<^sup>* s s' \<Longrightarrow> marked_sync k s ps \<Longrightarrow> marked_sync k s' ps"
  by (induction rule: rtranclp_induct) (auto intro: guarded_write_marked_sync)

lemma marked_sync_round_arrival:
  assumes "marked_sync k s ps" and "p \<in> set ps"
  shows "\<exists>l. bag_star s p = Some l \<and> round_arrival s k p = Some (earliest_arrival_time l)"
  using assms unfolding marked_sync_def round_arrival_def by fastforce

lemma steps_round_arrival:
  assumes st: "(guarded_write k)\<^sup>*\<^sup>* s s'" and ms: "marked_sync k s ps" and p: "p \<in> set ps"
    and a: "round_arrival s k p = Some a"
  shows "\<exists>a'. round_arrival s' k p = Some a' \<and> a' \<le> a"
proof -
  from marked_sync_round_arrival [OF ms p] a obtain l where l: "bag_star s p = Some l" "earliest_arrival_time l = a"
    by auto
  from marked_sync_round_arrival [OF steps_marked_sync [OF st ms] p] obtain l' where
    l': "bag_star s' p = Some l'" "round_arrival s' k p = Some (earliest_arrival_time l')"
    by auto
  from steps_kept_or_improved [OF st, of p] l(1) l'(1) have "earliest_arrival_time l' \<le> earliest_arrival_time l"
    by (auto simp: kept_or_improved_def)
  with l l' show ?thesis by simp
qed

lemma phase_invD:
  assumes "phase_inv tt k marked s0 (s, new)"
  shows "(guarded_write k)\<^sup>*\<^sup>* s0 s"
    and "\<And>q. q \<in> set new \<longleftrightarrow> improved s0 s q"
    and "\<And>q. q \<in> set new \<Longrightarrow> reached_by_transfer tt k marked s0 s q"
    and "\<And>q. q \<notin> set new \<Longrightarrow> bag_star s q = bag_star s0 q"
    and "\<And>q. q \<notin> set new \<Longrightarrow> round_label s k q = round_label s0 k q"
    and "\<And>j. j \<noteq> k \<Longrightarrow> bag_round_stop s j = bag_round_stop s0 j"
    and "earliest_arrival_at_destination s = earliest_arrival_at_destination s0"
  using assms unfolding phase_inv_def by simp_all

lemma phase_invI:
  assumes "(guarded_write k)\<^sup>*\<^sup>* s0 s"
    and "\<And>q. q \<in> set new \<longleftrightarrow> improved s0 s q"
    and "\<And>q. q \<in> set new \<Longrightarrow> reached_by_transfer tt k marked s0 s q"
    and "\<And>q. q \<notin> set new \<Longrightarrow> bag_star s q = bag_star s0 q"
    and "\<And>q. q \<notin> set new \<Longrightarrow> round_label s k q = round_label s0 k q"
    and "\<And>j. j \<noteq> k \<Longrightarrow> bag_round_stop s j = bag_round_stop s0 j"
    and "earliest_arrival_at_destination s = earliest_arrival_at_destination s0"
  shows "phase_inv tt k marked s0 (s, new)"
  using assms unfolding phase_inv_def by simp

lemma phase_inv_write:
  assumes inv: "phase_inv tt k marked s0 (s, new)" and ms: "marked_sync k s0 marked"
    and p: "p \<in> set marked" and out: "outgoing tt p tr c"
    and a0: "round_arrival s0 k p = Some a0" "tp \<le> a0"
    and a: "round_arrival s k p = Some a" "a \<le> tp"
    and l: "bag_star s (transfer_to_stop tr) = Some l" "tp + c < earliest_arrival_time l"
    and bk: "bag_round_stop s k = Some bk" "bk (transfer_to_stop tr) = Some lk"
  shows "phase_inv tt k marked s0
           (written k (transfer_to_stop tr) (transfer_label (tp + c) p) bk s, new @ [transfer_to_stop tr])"
proof -
  let ?q = "transfer_to_stop tr"
  let ?L = "transfer_label (tp + c) p"
  let ?s' = "written k ?q ?L bk s"
  note d = phase_invD [OF inv]
  note ws = written_simps(1) written_simps(2,3) [OF bk(1)] written_simps(4,5)
  have eL: "\<And>t x. earliest_arrival_time (transfer_label t x) = t" by (simp add: transfer_label_def)
  from d(1) ms have mss: "marked_sync k s marked" by (rule steps_marked_sync)
  from bk have aq: "round_arrival s k ?q = Some (earliest_arrival_time lk)"
    by (simp add: round_arrival_def)
  have llk: "earliest_arrival_time l = earliest_arrival_time lk" if "?q \<in> set marked"
    using marked_sync_round_arrival [OF mss that] l(1) aq by simp
  from steps_kept_or_improved [OF d(1), of ?q] l(1) obtain l0 where
    l0: "bag_star s0 ?q = Some l0" "earliest_arrival_time l \<le> earliest_arrival_time l0"
    by (auto simp: kept_or_improved_def split: option.splits)
  show ?thesis
  proof (rule phase_invI)
    from written_guarded [OF l bk] have "guarded_write k s ?s'" .
    with d(1) show "(guarded_write k)\<^sup>*\<^sup>* s0 ?s'" by (rule rtranclp.rtrancl_into_rtrancl)
  next
    fix x
    show "x \<in> set (new @ [?q]) \<longleftrightarrow> improved s0 ?s' x"
    proof (cases "x = ?q")
      case True
      from l0 l(2) have "improved s0 ?s' ?q"
        unfolding improved_def by (simp add: ws eL)
      with True show ?thesis by simp
    next
      case False
      then have "improved s0 ?s' x \<longleftrightarrow> improved s0 s x"
        unfolding improved_def by (simp add: ws)
      with False d(2) [of x] show ?thesis by simp
    qed
  next
    fix x
    assume x: "x \<in> set (new @ [?q])"
    show "reached_by_transfer tt k marked s0 ?s' x"
    proof (cases "x = ?q")
      case True
      have "\<exists>a'. round_arrival ?s' k p = Some a' \<and> a' + c \<le> tp + c"
      proof (cases "p = ?q")
        case True
        with a(1) aq have "a = earliest_arrival_time lk" by simp
        with l(2) llk a(2) True p have "c \<le> 0" by simp
        with True show ?thesis by (simp add: ws eL)
      next
        case False
        with a show ?thesis by (simp add: ws)
      qed
      then obtain a' where "round_arrival ?s' k p = Some a'" "a' + c \<le> tp + c" by blast
      with p out a0 True show ?thesis
        unfolding reached_by_transfer_def
        by (intro exI [of _ p] exI [of _ tr] exI [of _ c] exI [of _ a0] exI [of _ a'] exI [of _ "tp + c"])
           (simp add: ws)
    next
      case False
      with x have "x \<in> set new" by simp
      from d(3) [OF this] obtain p' tr' c' b a1 t where
        r: "p' \<in> set marked" "outgoing tt p' tr' c'" "transfer_to_stop tr' = x"
          "round_arrival s0 k p' = Some b" "round_arrival s k p' = Some a1" "a1 + c' \<le> t" "t \<le> b + c'"
          "bag_star s x = Some (transfer_label t p')" "round_label s k x = Some (transfer_label t p')"
        unfolding reached_by_transfer_def by blast
      have "\<exists>a2. round_arrival ?s' k p' = Some a2 \<and> a2 \<le> a1"
      proof (cases "p' = ?q")
        case True
        with r(5) aq have "a1 = earliest_arrival_time lk" by simp
        with l(2) llk True r(1) show ?thesis by (simp add: ws eL)
      next
        case False
        with r(5) show ?thesis by (simp add: ws)
      qed
      then obtain a2 where a2: "round_arrival ?s' k p' = Some a2" "a2 \<le> a1" by blast
      with r(6) have "a2 + c' \<le> t" by simp
      with r a2 False show ?thesis
        unfolding reached_by_transfer_def
        by (intro exI [of _ p'] exI [of _ tr'] exI [of _ c'] exI [of _ b] exI [of _ a2] exI [of _ t])
           (simp add: ws)
    qed
  next
    fix x
    assume "x \<notin> set (new @ [?q])"
    then have x: "x \<noteq> ?q" "x \<notin> set new" by simp_all
    with d(4) [of x] show "bag_star ?s' x = bag_star s0 x" by (simp add: ws)
    from x d(5) [of x] show "round_label ?s' k x = round_label s0 k x" by (simp add: ws)
  next
    fix j :: int
    assume "j \<noteq> k"
    with d(6) [of j] show "bag_round_stop ?s' j = bag_round_stop s0 j" by (simp add: ws)
  next
    from d(7) show "earliest_arrival_at_destination ?s' = earliest_arrival_at_destination s0"
      by (simp add: ws)
  qed
qed

lemma star_le_steps:
  assumes "(guarded_write k)\<^sup>*\<^sup>* s s'" and "star_le s q x"
  shows "star_le s' q x"
  using steps_kept_or_improved [OF assms(1), of q] assms(2)
  by (auto simp: star_le_def kept_or_improved_def split: option.splits)

lemma steps_round_arrival_back:
  assumes "(guarded_write k)\<^sup>*\<^sup>* s s'" and "round_arrival s' k q = Some a'"
  shows "\<exists>a. round_arrival s k q = Some a"
proof -
  from assms(2) obtain bk' where bk': "bag_round_stop s' k = Some bk'" "q \<in> dom bk'"
    by (auto simp: round_arrival_def split: bind_splits)
  with steps_round_dom [OF assms(1), of k] obtain bk where "bag_round_stop s k = Some bk" "q \<in> dom bk"
    by (cases "bag_round_stop s k") auto
  then show ?thesis by (auto simp: round_arrival_def)
qed

lemma relax_transfer_phase:
  assumes inv: "phase_inv tt k marked s0 sn" and ms: "marked_sync k s0 marked"
    and p: "p \<in> set marked" and trs: "from_stop_idx tt (id_of p) = Some trs" "tr \<in> set trs"
    and a0: "round_arrival s0 k p = Some a0" "tp \<le> a0"
    and a: "round_arrival (fst sn) k p = Some a" "a \<le> tp"
    and step: "relax_transfer k p tp tr sn = Some sn'"
  shows "phase_inv tt k marked s0 sn'"
    and "\<exists>a'. round_arrival (fst sn') k p = Some a' \<and> a' \<le> tp"
    and "layovertime tr = Some c \<Longrightarrow> star_le (fst sn') (transfer_to_stop tr) (tp + c)"
proof -
  obtain s new where sn: "sn = (s, new)" by (cases sn)
  note inv' = inv [unfolded sn] and step' = step [unfolded sn]
  from a sn have a': "round_arrival s k p = Some a" by simp
  from phase_invD(1) [OF inv'] ms have mss: "marked_sync k s marked" by (rule steps_marked_sync)
  from relax_transfer_step [OF step] have st: "(guarded_write k)\<^sup>*\<^sup>* s (fst sn')" by (simp add: sn)
  from steps_round_arrival [OF st mss p a'] a(2)
  show "\<exists>a'. round_arrival (fst sn') k p = Some a' \<and> a' \<le> tp" by fastforce
  from relax_transfer_cases [OF step']
  consider (kept) "sn' = (s, new)"
      "layovertime tr = None \<or> (\<exists>c l. layovertime tr = Some c \<and> bag_star s (transfer_to_stop tr) = Some l
                    \<and> \<not> tp + c < earliest_arrival_time l)"
    | (wrote) c' l bk lk where "layovertime tr = Some c'" "bag_star s (transfer_to_stop tr) = Some l"
        "tp + c' < earliest_arrival_time l" "bag_round_stop s k = Some bk" "bk (transfer_to_stop tr) = Some lk"
        "sn' = (written k (transfer_to_stop tr) (transfer_label (tp + c') p) bk s, new @ [transfer_to_stop tr])"
    by blast
  then have "phase_inv tt k marked s0 sn'
     \<and> (layovertime tr = Some c \<longrightarrow> star_le (fst sn') (transfer_to_stop tr) (tp + c))"
  proof cases
    case kept
    with inv' show ?thesis by (auto simp: star_le_def)
  next
    case wrote
    from trs wrote(1) have out: "outgoing tt p tr c'" unfolding outgoing_def by blast
    from phase_inv_write [OF inv' ms p out a0 a' a(2) wrote(2,3,4,5)] wrote(1,6)
    show ?thesis
      by (auto simp: star_le_def written_simps(1) transfer_label_def)
  qed
  then show "phase_inv tt k marked s0 sn'"
    and "layovertime tr = Some c \<Longrightarrow> star_le (fst sn') (transfer_to_stop tr) (tp + c)"
    by simp_all
qed

lemma transfers_of_stop_phase:
  assumes inv: "phase_inv tt k marked s0 sn" and ms: "marked_sync k s0 marked"
    and p: "p \<in> set marked" and step: "transfers_of_stop tt k p sn = Some sn'"
  shows "phase_inv tt k marked s0 sn'"
    and "outgoing tt p tr c \<Longrightarrow> round_arrival s0 k p = Some a0
           \<Longrightarrow> star_le (fst sn') (transfer_to_stop tr) (a0 + c)"
proof -
  from step obtain tp trs where tp: "round_arrival (fst sn) k p = Some tp"
    and trs: "from_stop_idx tt (id_of p) = Some trs"
    and loop: "for_each (relax_transfer k p tp) trs sn = Some sn'"
    by (auto simp: transfers_of_stop_def round_arrival_def Let_def split: bind_splits)
  from inv have g: "(guarded_write k)\<^sup>*\<^sup>* s0 (fst sn)" unfolding phase_inv_def by simp
  from steps_round_arrival_back [OF g tp] obtain b where b: "round_arrival s0 k p = Some b" ..
  from steps_round_arrival [OF g ms p b] tp have tpb: "tp \<le> b" by simp
  let ?P = "\<lambda>rest x. phase_inv tt k marked s0 x
      \<and> (\<exists>a'. round_arrival (fst x) k p = Some a' \<and> a' \<le> tp)
      \<and> (\<exists>done. trs = done @ rest
            \<and> (\<forall>tr \<in> set done. \<forall>c. layovertime tr = Some c \<longrightarrow> star_le (fst x) (transfer_to_stop tr) (tp + c)))"
  have "?P [] sn'"
  proof (rule for_each_invariant_rest [OF loop, where P = ?P])
    from inv tp show "?P trs sn" by simp
  next
    fix x rest u v
    assume P: "?P (x # rest) u" and f: "relax_transfer k p tp x u = Some v"
    from P obtain a' dn where i: "phase_inv tt k marked s0 u"
      and a': "round_arrival (fst u) k p = Some a'" "a' \<le> tp"
      and dn: "trs = dn @ x # rest"
        "\<forall>tr \<in> set dn. \<forall>c. layovertime tr = Some c \<longrightarrow> star_le (fst u) (transfer_to_stop tr) (tp + c)"
      by blast
    from dn(1) have x: "x \<in> set trs" by simp
    note r = relax_transfer_phase [OF i ms p trs x b tpb a' f]
    from relax_transfer_step [OF f] have st: "(guarded_write k)\<^sup>*\<^sup>* (fst u) (fst v)" .
    have "\<forall>tr \<in> set (dn @ [x]). \<forall>c. layovertime tr = Some c \<longrightarrow> star_le (fst v) (transfer_to_stop tr) (tp + c)"
      using dn(2) r(3) star_le_steps [OF st] by auto
    moreover from dn(1) have "trs = (dn @ [x]) @ rest" by simp
    ultimately show "?P rest v" using r(1,2) by blast
  qed
  then have fin: "phase_inv tt k marked s0 sn'"
    "\<forall>tr \<in> set trs. \<forall>c. layovertime tr = Some c \<longrightarrow> star_le (fst sn') (transfer_to_stop tr) (tp + c)"
    by auto
  from fin(1) show "phase_inv tt k marked s0 sn'" .
  assume "outgoing tt p tr c" "round_arrival s0 k p = Some a0"
  with trs b fin(2) tpb show "star_le (fst sn') (transfer_to_stop tr) (a0 + c)"
    by (auto simp: outgoing_def star_le_def) fastforce
qed

lemma phase_inv_init: "phase_inv tt k marked s (s, [])"
  by (simp add: phase_inv_def improved_def)

lemma add_transfer_time_phase:
  assumes ms: "marked_sync k s marked" and run: "add_transfer_time tt k marked s = Some sn'"
  shows "phase_inv tt k marked s sn'"
    and "p \<in> set marked \<Longrightarrow> outgoing tt p tr c \<Longrightarrow> round_arrival s k p = Some a
           \<Longrightarrow> star_le (fst sn') (transfer_to_stop tr) (a + c)"
proof -
  let ?P = "\<lambda>rest x. phase_inv tt k marked s x
      \<and> (\<exists>pre. marked = pre @ rest
            \<and> (\<forall>p \<in> set pre. \<forall>tr c a. outgoing tt p tr c \<longrightarrow> round_arrival s k p = Some a
                  \<longrightarrow> star_le (fst x) (transfer_to_stop tr) (a + c)))"
  have "?P [] sn'"
  proof (rule for_each_invariant_rest [OF run [unfolded add_transfer_time_def], where P = ?P])
    show "?P marked (s, [])" by (simp add: phase_inv_init)
  next
    fix x rest u v
    assume P: "?P (x # rest) u" and f: "transfers_of_stop tt k x u = Some v"
    from P obtain pre where i: "phase_inv tt k marked s u" and pre: "marked = pre @ x # rest"
      "\<forall>p \<in> set pre. \<forall>tr c a. outgoing tt p tr c \<longrightarrow> round_arrival s k p = Some a
                  \<longrightarrow> star_le (fst u) (transfer_to_stop tr) (a + c)"
      by blast
    from pre(1) have x: "x \<in> set marked" by simp
    note r = transfers_of_stop_phase [OF i ms x f]
    from transfers_of_stop_step [OF f] have st: "(guarded_write k)\<^sup>*\<^sup>* (fst u) (fst v)" .
    have "\<forall>p \<in> set (pre @ [x]). \<forall>tr c a. outgoing tt p tr c \<longrightarrow> round_arrival s k p = Some a
                  \<longrightarrow> star_le (fst v) (transfer_to_stop tr) (a + c)"
      using pre(2) r(2) star_le_steps [OF st] by auto
    moreover from pre(1) have "marked = (pre @ [x]) @ rest" by simp
    ultimately show "?P rest v" using r(1) by blast
  qed
  then show "phase_inv tt k marked s sn'"
    and "p \<in> set marked \<Longrightarrow> outgoing tt p tr c \<Longrightarrow> round_arrival s k p = Some a
           \<Longrightarrow> star_le (fst sn') (transfer_to_stop tr) (a + c)"
    by auto
qed

lemma arrive_by_trip_marked_sync:
  assumes "arrive_by_trip k p c = Some c'" and "marked_sync k (st c) (new_stops c)"
  shows "marked_sync k (st c') (new_stops c')"
  using arrive_by_trip_cases [OF assms(1)] assms(2)
  by (auto dest: write_labels_marked_sync)

lemma traverse_stop_marked_sync:
  assumes "traverse_stop k r p c = Some c'" and "marked_sync k (st c) (new_stops c)"
  shows "marked_sync k (st c') (new_stops c')"
  using assms
  by (auto simp: traverse_stop_def split: bind_splits dest!: catch_trip_st dest: arrive_by_trip_marked_sync)

lemma traverse_route_marked_sync:
  assumes "traverse_route k rp sn = Some sn'" and "marked_sync k (fst sn) (snd sn)"
  shows "marked_sync k (fst sn') (snd sn')"
proof -
  let ?c0 = "\<lparr>st = fst sn, new_stops = snd sn, current_trip = None, boarding_stop = None\<rparr>"
  from assms(1) obtain i c where
    c: "for_each (traverse_stop k (fst rp)) (drop i (route_stops (fst rp))) ?c0 = Some c"
    and sn': "sn' = (st c, new_stops c)"
    by (auto simp: traverse_route_def Let_def split: bind_splits)
  have "marked_sync k (st c) (new_stops c)"
    by (rule for_each_invariant [OF c]) (auto intro: assms(2) traverse_stop_marked_sync)
  with sn' show ?thesis by simp
qed

lemma traverse_routes_marked_sync:
  assumes "traverse_routes k rms s = Some sn'"
  shows "marked_sync k (fst sn') (snd sn')"
proof (rule for_each_invariant [OF assms [unfolded traverse_routes_def]])
  show "marked_sync k (fst (s, [])) (snd (s, []))" by (simp add: marked_sync_def)
next
  fix x a b
  assume "marked_sync k (fst a) (snd a)" "traverse_route k x a = Some b"
  then show "marked_sync k (fst b) (snd b)" by (rule traverse_route_marked_sync [rotated])
qed

lemma transfers_of_stop_eq:
  assumes "round_arrival s k current_stop = Some time_sofar"
    and "from_stop_idx tt (id_of current_stop) = Some trs"
  shows "transfers_of_stop tt k current_stop (s, new) =
     for_each (relax_transfer k current_stop time_sofar) trs (s, new)"
  using assms by (auto simp: transfers_of_stop_def round_arrival_def Let_def split: bind_splits)

text \<open>
  Claim C6.  Let the route traversal of round \<open>k\<close> end in the state \<open>s\<close> with the marked
  stops, and let the transfer phase of the round then run on these stops.  Every outgoing
  transfer of every marked stop is relaxed: after the phase the global-best arrival time of
  the transfer's target is at most the round-\<open>k\<close> arrival time of the marked stop plus the
  layover cost.  The stops that the phase marks are exactly the stops whose global-best
  arrival time it made strictly smaller.  The round-\<open>k\<close> label and the global-best label of
  a stop that the phase marks are both (candidate, transfer marker, source stop) for a
  marked source stop and one of its outgoing transfers to that stop, where the candidate is
  the round-\<open>k\<close> arrival time of the source stop, as it was when the phase read it, plus the
  layover cost: it lies between that arrival time after the phase and before the phase,
  plus the cost (the two are equal unless the phase marked the source stop itself).  The
  labels of a stop that the phase does not mark, the tables of the other rounds and the
  bound at the destination are left as they were.  One transfer with a layover cost is
  relaxed as follows: the candidate is the time read for the source stop plus the cost;
  exactly when the candidate is strictly smaller than the global-best arrival time of the
  target, the target's round-\<open>k\<close> label and global-best label become (candidate, transfer
  marker, source stop) and the target is marked; otherwise nothing changes.  And the time
  read for a marked stop is its round-\<open>k\<close> arrival time when the phase comes to that stop;
  it is used for all the transfers of the stop.
\<close>

theorem relax_transfers_effect:
  "(traverse_routes k route_marked_stops before = Some (s, marked_stops)
      \<and> add_transfer_time tt k marked_stops s = Some (s', marked_transfer_stops) \<longrightarrow>
      (current_stop \<in> set marked_stops \<and> from_stop_idx tt (id_of current_stop) = Some trs \<and> tr \<in> set trs
         \<and> layovertime tr = Some c \<and> round_arrival s k current_stop = Some time_sofar
       \<longrightarrow> (\<exists>l. bag_star s' (transfer_to_stop tr) = Some l \<and> earliest_arrival_time l \<le> time_sofar + c))
      \<and> (q \<in> set marked_transfer_stops \<longleftrightarrow>
           (\<exists>l l'. bag_star s q = Some l \<and> bag_star s' q = Some l'
              \<and> earliest_arrival_time l' < earliest_arrival_time l))
      \<and> (q \<in> set marked_transfer_stops \<longrightarrow>
           (\<exists>p0 trs0 tr0 c0 a a' t. p0 \<in> set marked_stops \<and> from_stop_idx tt (id_of p0) = Some trs0
              \<and> tr0 \<in> set trs0 \<and> layovertime tr0 = Some c0 \<and> transfer_to_stop tr0 = q
              \<and> round_arrival s k p0 = Some a \<and> round_arrival s' k p0 = Some a' \<and> a' + c0 \<le> t \<and> t \<le> a + c0
              \<and> bag_star s' q
                  = Some \<lparr>earliest_arrival_time = t, trip = Some TRANSFER_TRIP, from_stop = Some p0\<rparr>
              \<and> round_label s' k q
                  = Some \<lparr>earliest_arrival_time = t, trip = Some TRANSFER_TRIP, from_stop = Some p0\<rparr>))
      \<and> (q \<notin> set marked_transfer_stops \<longrightarrow> bag_star s' q = bag_star s q \<and> round_label s' k q = round_label s k q)
      \<and> (j \<noteq> k \<longrightarrow> bag_round_stop s' j = bag_round_stop s j)
      \<and> earliest_arrival_at_destination s' = earliest_arrival_at_destination s)
   \<and> (layovertime transfer = Some cost \<and> bag_star state (transfer_to_stop transfer) = Some previous
        \<and> bag_round_stop state k = Some bag_k \<and> bag_k (transfer_to_stop transfer) = Some label_t
      \<longrightarrow> relax_transfer k source_stop time_read transfer (state, new) =
            Some (if time_read + cost < earliest_arrival_time previous
                  then (state\<lparr>bag_round_stop := (bag_round_stop state)(k \<mapsto> bag_k(transfer_to_stop transfer \<mapsto>
                             \<lparr>earliest_arrival_time = time_read + cost, trip = Some TRANSFER_TRIP,
                              from_stop = Some source_stop\<rparr>)),
                          bag_star := (bag_star state)(transfer_to_stop transfer \<mapsto>
                             \<lparr>earliest_arrival_time = time_read + cost, trip = Some TRANSFER_TRIP,
                              from_stop = Some source_stop\<rparr>)\<rparr>,
                        new @ [transfer_to_stop transfer])
                  else (state, new)))
   \<and> (round_arrival state k source_stop = Some time_read \<and> from_stop_idx tt (id_of source_stop) = Some transfers
      \<longrightarrow> transfers_of_stop tt k source_stop (state, new) =
            for_each (relax_transfer k source_stop time_read) transfers (state, new))"
proof (intro conjI impI; (elim conjE)?)
  assume tr: "traverse_routes k route_marked_stops before = Some (s, marked_stops)"
    and run: "add_transfer_time tt k marked_stops s = Some (s', marked_transfer_stops)"
  from traverse_routes_marked_sync [OF tr] have sb: "marked_sync k s marked_stops" by simp
  note ph = phase_invD [OF add_transfer_time_phase(1) [OF sb run]]
  {
    assume "current_stop \<in> set marked_stops" "from_stop_idx tt (id_of current_stop) = Some trs" "tr \<in> set trs"
      "layovertime tr = Some c" "round_arrival s k current_stop = Some time_sofar"
    then show "\<exists>l. bag_star s' (transfer_to_stop tr) = Some l \<and> earliest_arrival_time l \<le> time_sofar + c"
      using add_transfer_time_phase(2) [OF sb run, of current_stop tr c time_sofar]
      by (auto simp: outgoing_def star_le_def)
  }
  show "q \<in> set marked_transfer_stops \<longleftrightarrow>
           (\<exists>l l'. bag_star s q = Some l \<and> bag_star s' q = Some l'
              \<and> earliest_arrival_time l' < earliest_arrival_time l)"
    using ph(2) [of q] by (simp add: improved_def)
  {
    assume "q \<in> set marked_transfer_stops"
    from ph(3) [OF this]
    show "\<exists>p0 trs0 tr0 c0 a a' t. p0 \<in> set marked_stops \<and> from_stop_idx tt (id_of p0) = Some trs0
              \<and> tr0 \<in> set trs0 \<and> layovertime tr0 = Some c0 \<and> transfer_to_stop tr0 = q
              \<and> round_arrival s k p0 = Some a \<and> round_arrival s' k p0 = Some a' \<and> a' + c0 \<le> t \<and> t \<le> a + c0
              \<and> bag_star s' q
                  = Some \<lparr>earliest_arrival_time = t, trip = Some TRANSFER_TRIP, from_stop = Some p0\<rparr>
              \<and> round_label s' k q
                  = Some \<lparr>earliest_arrival_time = t, trip = Some TRANSFER_TRIP, from_stop = Some p0\<rparr>"
      unfolding reached_by_transfer_def outgoing_def transfer_label_def by fastforce
  }
  {
    assume "q \<notin> set marked_transfer_stops"
    with ph(4,5) show "bag_star s' q = bag_star s q" "round_label s' k q = round_label s k q"
      by simp_all
  }
  {
    assume "j \<noteq> k"
    with ph(6) show "bag_round_stop s' j = bag_round_stop s j" by simp
  }
  from ph(7) show "earliest_arrival_at_destination s' = earliest_arrival_at_destination s" by simp
next
  assume "layovertime transfer = Some cost" "bag_star state (transfer_to_stop transfer) = Some previous"
    "bag_round_stop state k = Some bag_k" "bag_k (transfer_to_stop transfer) = Some label_t"
  then show "relax_transfer k source_stop time_read transfer (state, new) =
            Some (if time_read + cost < earliest_arrival_time previous
                  then (state\<lparr>bag_round_stop := (bag_round_stop state)(k \<mapsto> bag_k(transfer_to_stop transfer \<mapsto>
                             \<lparr>earliest_arrival_time = time_read + cost, trip = Some TRANSFER_TRIP,
                              from_stop = Some source_stop\<rparr>)),
                          bag_star := (bag_star state)(transfer_to_stop transfer \<mapsto>
                             \<lparr>earliest_arrival_time = time_read + cost, trip = Some TRANSFER_TRIP,
                              from_stop = Some source_stop\<rparr>)\<rparr>,
                        new @ [transfer_to_stop transfer])
                  else (state, new))"
    by (rule relax_transfer_eq)
next
  assume "round_arrival state k source_stop = Some time_read" "from_stop_idx tt (id_of source_stop) = Some transfers"
  then show "transfers_of_stop tt k source_stop (state, new) =
            for_each (relax_transfer k source_stop time_read) transfers (state, new)"
    by (rule transfers_of_stop_eq)
qed

lemma transfer_query_phases:
  "map_option snd (traverse_routes 1 [(\<lparr>route_stops = [Stop ''A'', Stop ''C''],
        route_trips = [trip_101 0 0, trip_101 10 3600]\<rparr>, Stop ''A'')] transfer_query_start) = Some [Stop ''C'']"
  "round_arrival (fst transfer_query_routes) 1 (Stop ''C'') = Some 600"
  "map_option snd (add_transfer_time timetable_with_transfer 1 [Stop ''C''] (fst transfer_query_routes))
     = Some [Stop ''X'']"
  "bag_star (fst transfer_query_transfers) (Stop ''X'')
     = Some \<lparr>earliest_arrival_time = 720, trip = Some TRANSFER_TRIP, from_stop = Some (Stop ''C'')\<rparr>"
  "bag_star (fst transfer_query_routes) (Stop ''X'') = Some Label"
  by (simp_all add: transfer_query_start_def transfer_query_routes_def transfer_query_transfers_def
      round_arrival_def eval_defs Let_def)

theorem relax_transfers_effect_witness:
  "traverse_routes 1 [(\<lparr>route_stops = [Stop ''A'', Stop ''C''],
        route_trips = [trip_101 0 0, trip_101 10 3600]\<rparr>, Stop ''A'')] transfer_query_start
     = Some (fst transfer_query_routes, [Stop ''C''])
   \<and> add_transfer_time timetable_with_transfer 1 [Stop ''C''] (fst transfer_query_routes)
       = Some (fst transfer_query_transfers, [Stop ''X''])
   \<and> Stop ''C'' \<in> set [Stop ''C'']
   \<and> from_stop_idx timetable_with_transfer (id_of (Stop ''C'')) = Some [transfer_C_X]
   \<and> transfer_C_X \<in> set [transfer_C_X] \<and> layovertime transfer_C_X = Some 120
   \<and> transfer_to_stop transfer_C_X = Stop ''X''
   \<and> round_arrival (fst transfer_query_routes) 1 (Stop ''C'') = Some 600
   \<and> (\<exists>l. bag_star (fst transfer_query_transfers) (Stop ''X'') = Some l \<and> earliest_arrival_time l \<le> 600 + 120)
   \<and> Stop ''X'' \<in> set [Stop ''X'']
   \<and> (\<exists>l l'. bag_star (fst transfer_query_routes) (Stop ''X'') = Some l
         \<and> bag_star (fst transfer_query_transfers) (Stop ''X'') = Some l'
         \<and> earliest_arrival_time l' < earliest_arrival_time l)
   \<and> bag_star (fst transfer_query_transfers) (Stop ''X'')
       = Some \<lparr>earliest_arrival_time = 720, trip = Some TRANSFER_TRIP, from_stop = Some (Stop ''C'')\<rparr>
   \<and> round_label (fst transfer_query_transfers) 1 (Stop ''X'')
       = Some \<lparr>earliest_arrival_time = 720, trip = Some TRANSFER_TRIP, from_stop = Some (Stop ''C'')\<rparr>"
proof -
  let ?rms = "[(\<lparr>route_stops = [Stop ''A'', Stop ''C''],
        route_trips = [trip_101 0 0, trip_101 10 3600]\<rparr>, Stop ''A'')]"
  from transfer_query_phases(1)
  have 1: "traverse_routes 1 ?rms transfer_query_start = Some (fst transfer_query_routes, [Stop ''C''])"
    unfolding transfer_query_routes_def by (cases "traverse_routes 1 ?rms transfer_query_start") auto
  from transfer_query_phases(1) have sr: "snd transfer_query_routes = [Stop ''C'']"
    unfolding transfer_query_routes_def by (cases "traverse_routes 1 ?rms transfer_query_start") auto
  from transfer_query_phases(3)
  have 2: "add_transfer_time timetable_with_transfer 1 [Stop ''C''] (fst transfer_query_routes)
       = Some (fst transfer_query_transfers, [Stop ''X''])"
    unfolding transfer_query_transfers_def sr
    by (cases "add_transfer_time timetable_with_transfer 1 [Stop ''C''] (fst transfer_query_routes)") auto
  have 3: "from_stop_idx timetable_with_transfer (id_of (Stop ''C'')) = Some [transfer_C_X]"
    by (simp add: timetable_with_transfer_def)
  have 4: "layovertime transfer_C_X = Some 120" "transfer_to_stop transfer_C_X = Stop ''X''"
    by (simp_all add: transfer_C_X_def)
  note inst = relax_transfers_effect [where tt = timetable_with_transfer and k = 1
        and route_marked_stops = ?rms and before = transfer_query_start and s = "fst transfer_query_routes"
        and marked_stops = "[Stop ''C'']" and s' = "fst transfer_query_transfers"
        and marked_transfer_stops = "[Stop ''X'']"
        and current_stop = "Stop ''C''" and trs = "[transfer_C_X]" and tr = transfer_C_X and c = 120
        and time_sofar = 600 and q = "Stop ''X''" and j = 0]
  note main = inst [THEN conjunct1, THEN mp, OF conjI [OF 1 2]]
  from main [THEN conjunct1] 3 4 transfer_query_phases(2) have
    a: "\<exists>l. bag_star (fst transfer_query_transfers) (Stop ''X'') = Some l \<and> earliest_arrival_time l \<le> 600 + 120"
    by simp
  from main [THEN conjunct2, THEN conjunct1] have
    b: "\<exists>l l'. bag_star (fst transfer_query_routes) (Stop ''X'') = Some l
         \<and> bag_star (fst transfer_query_transfers) (Stop ''X'') = Some l'
         \<and> earliest_arrival_time l' < earliest_arrival_time l"
    by simp
  from main [THEN conjunct2, THEN conjunct2, THEN conjunct1] obtain p0 t where
    "bag_star (fst transfer_query_transfers) (Stop ''X'')
       = Some \<lparr>earliest_arrival_time = t, trip = Some TRANSFER_TRIP, from_stop = Some p0\<rparr>"
    "round_label (fst transfer_query_transfers) 1 (Stop ''X'')
       = Some \<lparr>earliest_arrival_time = t, trip = Some TRANSFER_TRIP, from_stop = Some p0\<rparr>"
    by auto
  with transfer_query_phases(4) have
    c: "round_label (fst transfer_query_transfers) 1 (Stop ''X'')
       = Some \<lparr>earliest_arrival_time = 720, trip = Some TRANSFER_TRIP, from_stop = Some (Stop ''C'')\<rparr>"
    by simp
  from 1 2 3 4 a b c transfer_query_phases(2,4) show ?thesis by simp
qed

section \<open>A query on a well-formed timetable raises no exception\<close>

lemma for_each_total:
  assumes "P s" and "\<And>x a. x \<in> set xs \<Longrightarrow> P a \<Longrightarrow> \<exists>b. f x a = Some b \<and> P b"
  shows "\<exists>s'. for_each f xs s = Some s' \<and> P s'"
  using assms
proof (induction xs arbitrary: s)
  case Nil
  then show ?case by simp
next
  case (Cons x xs)
  from Cons.prems obtain s1 where s1: "f x s = Some s1" "P s1" by (meson list.set_intros(1))
  from Cons.IH [OF s1(2)] Cons.prems(2) obtain s' where "for_each f xs s1 = Some s'" "P s'"
    by (meson list.set_intros(2))
  with s1(1) show ?case by simp
qed

lemma write_labels_total:
  assumes "dom_inv tt rounds s" and "0 \<le> k" "k \<le> rounds" and "p \<in> set (stops tt)"
  shows "\<exists>s1. write_labels k p t tr fs s = Some s1 \<and> dom_inv tt rounds s1
           \<and> dom_inv tt rounds (s1\<lparr>earliest_arrival_at_destination := v\<rparr>)
           \<and> destination_stops s1 = destination_stops s"
proof -
  from assms(1,2,3) obtain bk where bk0: "bag_round_stop s k = Some bk" "set (stops tt) \<subseteq> dom bk"
    unfolding dom_inv_def by blast
  from bk0(2) assms(4) obtain lk where "bk p = Some lk" by blast
  with bk0(1) have bk: "bag_round_stop s k = Some bk" "bk p = Some lk" by simp_all
  from assms(1,4) obtain ls where ls: "bag_star s p = Some ls"
    unfolding dom_inv_def by blast
  let ?s1 = "s\<lparr>bag_round_stop := (bag_round_stop s)(k \<mapsto> bk(p \<mapsto> update (Some t) tr fs lk)),
               bag_star := (bag_star s)(p \<mapsto> update (Some t) tr fs ls)\<rparr>"
  from bk ls have w: "write_labels k p t tr fs s = Some ?s1"
    by (simp add: write_labels_def)
  from ls have "p \<in> dom (bag_star s)" by blast
  then have d: "dom (bag_star ?s1) = dom (bag_star s)" by (simp add: insert_absorb)
  have r: "\<exists>bag_j. bag_round_stop ?s1 j = Some bag_j \<and> set (stops tt) \<subseteq> dom bag_j"
    if "0 \<le> j" "j \<le> rounds" for j
  proof -
    from assms(1) that obtain bj where bj: "bag_round_stop s j = Some bj" "set (stops tt) \<subseteq> dom bj"
      unfolding dom_inv_def by blast
    show ?thesis
    proof (cases "j = k")
      case True
      with bj bk show ?thesis by auto
    next
      case False
      with bj show ?thesis by auto
    qed
  qed
  from d r assms(1) have "dom_inv tt rounds ?s1"
    "dom_inv tt rounds (?s1\<lparr>earliest_arrival_at_destination := v\<rparr>)"
    unfolding dom_inv_def by simp_all
  with w show ?thesis by simp
qed

lemma get_stop_total:
  assumes "map tst_stop (stop_times t) = ps" and "p \<in> set ps"
  shows "\<exists>x. get_stop t p = Some x"
proof -
  from assms obtain x where "x \<in> set (stop_times t)" "tst_stop x = p" by auto
  then have "find (\<lambda>x. tst_stop x = p) (rev (stop_times t)) \<noteq> None"
    by (auto simp: find_None_iff)
  then show ?thesis unfolding get_stop_def by blast
qed

lemma index_of_total: "p \<in> set ps \<Longrightarrow> \<exists>i. index_of p ps = Some i"
  by (induction ps) (auto split: option.splits)

lemma arrive_by_trip_total:
  assumes wf: "well_formed tt" and r: "r \<in> set (routes tt)" and p: "p \<in> set (route_stops r)"
    and k: "0 \<le> k" "k \<le> rounds" and ok: "scan_ok tt rounds r c"
  shows "\<exists>c'. arrive_by_trip k p c = Some c' \<and> scan_ok tt rounds r c'"
proof (cases "current_trip c")
  case None
  with ok show ?thesis by (simp add: arrive_by_trip_def)
next
  case (Some t)
  with ok have t: "t \<in> set (route_trips r)" unfolding scan_ok_def by simp
  from wf r t have "map tst_stop (stop_times t) = route_stops r" unfolding well_formed_def by blast
  from get_stop_total [OF this p] obtain x where x: "get_stop t p = Some x" ..
  from wf r p have ps: "p \<in> set (stops tt)" unfolding well_formed_def by blast
  from ok have di: "dom_inv tt rounds (st c)" and ns: "set (new_stops c) \<subseteq> set (stops tt)"
    unfolding scan_ok_def by simp_all
  from di ps obtain best where best: "bag_star (st c) p = Some best" unfolding dom_inv_def by blast
  from write_labels_total [OF di k ps, of "dts_arr x" "Some (ByTrip t)" "boarding_stop c" "dts_arr x"]
  obtain s1 where s1: "write_labels k p (dts_arr x) (Some (ByTrip t)) (boarding_stop c) (st c) = Some s1"
    "dom_inv tt rounds s1" "dom_inv tt rounds (s1\<lparr>earliest_arrival_at_destination := dts_arr x\<rparr>)"
    by blast
  show ?thesis
  proof (cases "dts_arr x < earliest_arrival_time best \<and> dts_arr x < earliest_arrival_at_destination (st c)")
    case False
    with Some x best ok show ?thesis by (auto simp: arrive_by_trip_def Let_def)
  next
    case True
    let ?c' = "c\<lparr>st := if p \<in> set (destination_stops s1)
                        then s1\<lparr>earliest_arrival_at_destination := dts_arr x\<rparr> else s1,
                 new_stops := new_stops c @ [p]\<rparr>"
    from True Some x best s1(1) have "arrive_by_trip k p c = Some ?c'"
      by (simp add: arrive_by_trip_def Let_def)
    moreover from s1(2,3) ns ps ok have "scan_ok tt rounds r ?c'"
      unfolding scan_ok_def by simp
    ultimately show ?thesis by blast
  qed
qed

lemma catch_trip_total:
  assumes wf: "well_formed tt" and r: "r \<in> set (routes tt)" and p: "p \<in> set (route_stops r)"
    and k: "1 \<le> k" "k \<le> rounds" and ok: "scan_ok tt rounds r c"
  shows "\<exists>c'. catch_trip k r p c = Some c' \<and> scan_ok tt rounds r c'"
proof -
  from wf r p have ps: "p \<in> set (stops tt)" unfolding well_formed_def by blast
  from k have k1: "0 \<le> k - 1 \<and> k - 1 \<le> rounds" by simp
  from ok have di: "dom_inv tt rounds (st c)" unfolding scan_ok_def by simp
  from di k1 obtain bp where bp0: "bag_round_stop (st c) (k - 1) = Some bp" "set (stops tt) \<subseteq> dom bp"
    unfolding dom_inv_def by blast
  from bp0(2) ps obtain lp where "bp p = Some lp" by blast
  with bp0(1) have bp: "bag_round_stop (st c) (k - 1) = Some bp" "bp p = Some lp" by simp_all
  have "\<exists>b. (case current_trip c of None \<Rightarrow> Some True
        | Some t \<Rightarrow> map_option (\<lambda>x. earliest_arrival_time lp \<le> dts_dep x) (get_stop t p)) = Some b"
  proof (cases "current_trip c")
    case None
    then show ?thesis by auto
  next
    case (Some t)
    with ok have "t \<in> set (route_trips r)" unfolding scan_ok_def by simp
    with wf r have "map tst_stop (stop_times t) = route_stops r" unfolding well_formed_def by blast
    from get_stop_total [OF this p] Some show ?thesis by auto
  qed
  then obtain b where b: "(case current_trip c of None \<Rightarrow> Some True
        | Some t \<Rightarrow> map_option (\<lambda>x. earliest_arrival_time lp \<le> dts_dep x) (get_stop t p)) = Some b" ..
  show ?thesis
  proof (cases b)
    case False
    with bp b ok show ?thesis by (auto simp: catch_trip_def Let_def)
  next
    case True
    show ?thesis
    proof (cases "earliest_trip_stop_time r (earliest_arrival_time lp) p")
      case None
      with True bp b ok show ?thesis by (auto simp: catch_trip_def Let_def)
    next
      case (Some e)
      from earliest_trip_stop_time_Some(1) [OF Some] ok
      have "scan_ok tt rounds r (c\<lparr>current_trip := Some (fst e), boarding_stop := Some p\<rparr>)"
        unfolding scan_ok_def by simp
      with True bp b Some ok show ?thesis by (auto simp: catch_trip_def Let_def)
    qed
  qed
qed

lemma traverse_stop_total:
  assumes "well_formed tt" and "r \<in> set (routes tt)" and "p \<in> set (route_stops r)"
    and "1 \<le> k" "k \<le> rounds" and "scan_ok tt rounds r c"
  shows "\<exists>c'. traverse_stop k r p c = Some c' \<and> scan_ok tt rounds r c'"
proof -
  from assms(4) have "0 \<le> k" by simp
  from arrive_by_trip_total [OF assms(1-3) this assms(5,6)] obtain c1 where
    c1: "arrive_by_trip k p c = Some c1" "scan_ok tt rounds r c1" by blast
  from catch_trip_total [OF assms(1-5) c1(2)] c1(1) show ?thesis
    by (auto simp: traverse_stop_def)
qed

lemma traverse_route_total:
  assumes wf: "well_formed tt" and r: "fst rp \<in> set (routes tt)" and p: "snd rp \<in> set (route_stops (fst rp))"
    and k: "1 \<le> k" "k \<le> rounds" and ok: "state_ok tt rounds sn"
  shows "\<exists>sn'. traverse_route k rp sn = Some sn' \<and> state_ok tt rounds sn'"
proof -
  from index_of_total [OF p] obtain i where i: "stop_index (fst rp) (snd rp) = Some i"
    unfolding stop_index_def ..
  let ?c = "\<lparr>st = fst sn, new_stops = snd sn, current_trip = None, boarding_stop = None\<rparr>"
  from ok have "scan_ok tt rounds (fst rp) ?c" unfolding scan_ok_def state_ok_def by simp
  then have "\<exists>c'. for_each (traverse_stop k (fst rp)) (drop i (route_stops (fst rp))) ?c = Some c'
      \<and> scan_ok tt rounds (fst rp) c'"
  proof (rule for_each_total)
    fix x a
    assume "x \<in> set (drop i (route_stops (fst rp)))" "scan_ok tt rounds (fst rp) a"
    then show "\<exists>b. traverse_stop k (fst rp) x a = Some b \<and> scan_ok tt rounds (fst rp) b"
      by (intro traverse_stop_total [OF wf r _ k]) (auto dest: in_set_dropD)
  qed
  then obtain c' where "for_each (traverse_stop k (fst rp)) (drop i (route_stops (fst rp))) ?c = Some c'"
    "scan_ok tt rounds (fst rp) c'" by blast
  with i show ?thesis
    by (simp add: traverse_route_def Let_def state_ok_def scan_ok_def)
qed

lemma set_AList_update: "set (AList.update k v al) \<subseteq> insert (k, v) (set al)"
  by (induction al) auto

lemma accumulate_route_total:
  assumes q: "\<forall>x \<in> set q. snd x \<in> set (route_stops (fst x)) \<and> fst x \<in> R"
    and r: "p \<in> set (route_stops r)" "r \<in> R"
  shows "\<exists>q'. accumulate_route p r q = Some q'
          \<and> (\<forall>x \<in> set q'. snd x \<in> set (route_stops (fst x)) \<and> fst x \<in> R)"
proof -
  have upd: "\<forall>x \<in> set (AList.update r p q). snd x \<in> set (route_stops (fst x)) \<and> fst x \<in> R"
    using set_AList_update [of r p q] q r by auto
  show ?thesis
  proof (cases "map_of q r")
    case None
    with upd show ?thesis by (simp add: accumulate_route_def)
  next
    case (Some cur)
    then have "(r, cur) \<in> set q" by (rule map_of_SomeD)
    with q have "cur \<in> set (route_stops r)" by auto
    from index_of_total [OF this] index_of_total [OF r(1)] obtain i j where
      "stop_index r cur = Some i" "stop_index r p = Some j"
      unfolding stop_index_def by blast
    with Some upd q show ?thesis by (simp add: accumulate_route_def)
  qed
qed

lemma accumulate_routes_total:
  "\<exists>q. accumulate_routes tt ms = Some q
       \<and> (\<forall>x \<in> set q. snd x \<in> set (route_stops (fst x)) \<and> fst x \<in> set (routes tt))"
  unfolding accumulate_routes_def
proof (rule for_each_total)
  show "\<forall>x \<in> set []. snd x \<in> set (route_stops (fst x)) \<and> fst x \<in> set (routes tt)" by simp
next
  fix p a
  assume a: "\<forall>x \<in> set a. snd x \<in> set (route_stops (fst x)) \<and> fst x \<in> set (routes tt)"
  then show "\<exists>b. for_each (accumulate_route p) (get_routes_of_stop tt p) a = Some b
      \<and> (\<forall>x \<in> set b. snd x \<in> set (route_stops (fst x)) \<and> fst x \<in> set (routes tt))"
  proof (rule for_each_total)
    fix r a'
    assume "r \<in> set (get_routes_of_stop tt p)"
      "\<forall>x \<in> set a'. snd x \<in> set (route_stops (fst x)) \<and> fst x \<in> set (routes tt)"
    then show "\<exists>b. accumulate_route p r a' = Some b
        \<and> (\<forall>x \<in> set b. snd x \<in> set (route_stops (fst x)) \<and> fst x \<in> set (routes tt))"
      by (intro accumulate_route_total) (simp_all add: get_routes_of_stop_def)
  qed
qed

lemma traverse_routes_total:
  assumes wf: "well_formed tt"
    and q: "\<forall>x \<in> set q. snd x \<in> set (route_stops (fst x)) \<and> fst x \<in> set (routes tt)"
    and k: "1 \<le> k" "k \<le> rounds" and ok: "dom_inv tt rounds s"
  shows "\<exists>sn'. traverse_routes k q s = Some sn' \<and> state_ok tt rounds sn'"
  unfolding traverse_routes_def
proof (rule for_each_total)
  from ok show "state_ok tt rounds (s, [])" by (simp add: state_ok_def)
next
  fix x a
  assume "x \<in> set q" "state_ok tt rounds a"
  with q show "\<exists>b. traverse_route k x a = Some b \<and> state_ok tt rounds b"
    by (intro traverse_route_total [OF wf _ _ k]) auto
qed

lemma relax_transfer_total:
  assumes ok: "state_ok tt rounds sn" and k: "0 \<le> k" "k \<le> rounds"
    and tr: "transfer_to_stop tr \<in> set (stops tt)"
  shows "\<exists>sn'. relax_transfer k cs time_sofar tr sn = Some sn' \<and> state_ok tt rounds sn'"
proof (cases "layovertime tr")
  case None
  with ok show ?thesis by (simp add: relax_transfer_def)
next
  case (Some c)
  from ok have di: "dom_inv tt rounds (fst sn)" and ns: "set (snd sn) \<subseteq> set (stops tt)"
    unfolding state_ok_def by simp_all
  from di tr obtain prev where prev: "bag_star (fst sn) (transfer_to_stop tr) = Some prev"
    unfolding dom_inv_def by blast
  from write_labels_total [OF di k tr, of "time_sofar + c" "Some TRANSFER_TRIP" "Some cs"]
  obtain s1 where "write_labels k (transfer_to_stop tr) (time_sofar + c) (Some TRANSFER_TRIP) (Some cs) (fst sn) = Some s1"
    "dom_inv tt rounds s1" by blast
  note s1 = this
  show ?thesis
  proof (cases "time_sofar + c < earliest_arrival_time prev")
    case True
    with Some prev s1 ns tr show ?thesis
      by (simp add: relax_transfer_def Let_def state_ok_def)
  next
    case False
    with Some prev ok show ?thesis
      by (simp add: relax_transfer_def Let_def)
  qed
qed

lemma transfers_of_stop_total:
  assumes wf: "well_formed tt" and ok: "state_ok tt rounds sn" and k: "0 \<le> k" "k \<le> rounds"
    and cs: "cs \<in> set (stops tt)"
  shows "\<exists>sn'. transfers_of_stop tt k cs sn = Some sn' \<and> state_ok tt rounds sn'"
proof -
  from ok k obtain bk where bk0: "bag_round_stop (fst sn) k = Some bk" "set (stops tt) \<subseteq> dom bk"
    unfolding state_ok_def dom_inv_def by blast
  from bk0(2) cs obtain lk where "bk cs = Some lk" by blast
  with bk0(1) have bk: "bag_round_stop (fst sn) k = Some bk" "bk cs = Some lk" by simp_all
  from wf cs obtain trs where trs: "from_stop_idx tt (id_of cs) = Some trs"
    and tg: "\<forall>tr \<in> set trs. transfer_to_stop tr \<in> set (stops tt)"
    unfolding well_formed_def by (fastforce split: option.splits)
  from ok have "\<exists>sn'. for_each (relax_transfer k cs (earliest_arrival_time lk)) trs sn = Some sn'
      \<and> state_ok tt rounds sn'"
  proof (rule for_each_total)
    fix x a
    assume "x \<in> set trs" "state_ok tt rounds a"
    with tg show "\<exists>b. relax_transfer k cs (earliest_arrival_time lk) x a = Some b \<and> state_ok tt rounds b"
      by (intro relax_transfer_total [OF _ k]) auto
  qed
  with bk trs show ?thesis by (simp add: transfers_of_stop_def Let_def)
qed

lemma add_transfer_time_total:
  assumes wf: "well_formed tt" and ok: "dom_inv tt rounds s" and k: "0 \<le> k" "k \<le> rounds"
    and ms: "set ms \<subseteq> set (stops tt)"
  shows "\<exists>sn'. add_transfer_time tt k ms s = Some sn' \<and> state_ok tt rounds sn'"
  unfolding add_transfer_time_def
proof (rule for_each_total)
  from ok show "state_ok tt rounds (s, [])" by (simp add: state_ok_def)
next
  fix x a
  assume "x \<in> set ms" "state_ok tt rounds a"
  with ms show "\<exists>b. transfers_of_stop tt k x a = Some b \<and> state_ok tt rounds b"
    by (intro transfers_of_stop_total [OF wf _ k]) auto
qed

lemma round_body_total:
  assumes wf: "well_formed tt" and ok: "dom_inv tt rounds (fst sn)" and k: "1 \<le> k" "k \<le> rounds"
  shows "\<exists>sn'. round_body tt ord k sn = Some sn' \<and> dom_inv tt rounds (fst sn')"
proof -
  from accumulate_routes_total [of tt "snd sn"] obtain q where q: "accumulate_routes tt (snd sn) = Some q"
    "\<forall>x \<in> set q. snd x \<in> set (route_stops (fst x)) \<and> fst x \<in> set (routes tt)" by blast
  from traverse_routes_total [OF wf q(2) k ok] obtain sn1 where
    1: "traverse_routes k q (fst sn) = Some sn1" "state_ok tt rounds sn1" by blast
  from k(1) have "0 \<le> k" by simp
  from 1(2) have "dom_inv tt rounds (fst sn1)" "set (snd sn1) \<subseteq> set (stops tt)"
    unfolding state_ok_def by simp_all
  from add_transfer_time_total [OF wf this(1) \<open>0 \<le> k\<close> k(2) this(2)] obtain sn2 where
    2: "add_transfer_time tt k (snd sn1) (fst sn1) = Some sn2" "state_ok tt rounds sn2" by blast
  from q(1) 1(1) 2 show ?thesis
    by (simp add: round_body_def state_ok_def)
qed

lemma run_rounds_total:
  "well_formed tt \<Longrightarrow> dom_inv tt rounds (fst sn) \<Longrightarrow> 1 \<le> k \<Longrightarrow> k + int n \<le> rounds + 1
     \<Longrightarrow> \<exists>sn'. run_rounds tt ord k n sn = Some sn'"
proof (induction n arbitrary: k sn)
  case 0
  then show ?case by simp
next
  case (Suc n)
  show ?case
  proof (cases "length (snd sn) > 0")
    case False
    then show ?thesis by simp
  next
    case True
    from Suc.prems(4) have k: "k \<le> rounds" by simp
    from round_body_total [OF Suc.prems(1,2,3) k] obtain sn1 where
      sn1: "round_body tt ord k sn = Some sn1" "dom_inv tt rounds (fst sn1)" by blast
    from Suc.prems(3,4) have "1 \<le> k + 1" "k + 1 + int n \<le> rounds + 1" by simp_all
    from Suc.IH [OF Suc.prems(1) sn1(2) this] True sn1(1) show ?thesis by simp
  qed
qed

lemma init_state_dom_inv: "dom_inv tt rounds (init_state tt ts rounds)"
  by (auto simp: dom_inv_def init_state_def dom_fold_labels dom_empty_bag)

lemma init_from_stop_total:
  assumes "dom_inv tt rounds (fst sn)" and "0 \<le> rounds" and "p \<in> set (stops tt)"
  shows "\<exists>sn'. init_from_stop d p sn = Some sn' \<and> dom_inv tt rounds (fst sn')"
proof -
  from write_labels_total [OF assms(1) order_refl assms(2,3), where t = d and tr = None and fs = None]
  obtain s1 where "write_labels 0 p d None None (fst sn) = Some s1" "dom_inv tt rounds s1"
    by blast
  then show ?thesis
    by (auto simp: init_from_stop_def write_labels_def split: bind_splits)
qed

lemma run_init_total:
  assumes "set fs \<subseteq> set (stops tt)" and "fs = [] \<or> 0 \<le> rounds"
  shows "\<exists>sn. run_init tt fs ts d rounds = Some sn \<and> dom_inv tt rounds (fst sn)"
  unfolding run_init_def
proof (rule for_each_total)
  show "dom_inv tt rounds (fst (init_state tt ts rounds, []))"
    by (simp add: init_state_dom_inv)
next
  fix x and a :: "raptor \<times> place list"
  assume "x \<in> set fs" "dom_inv tt rounds (fst a)"
  with assms show "\<exists>b. init_from_stop d x a = Some b \<and> dom_inv tt rounds (fst b)"
    by (intro init_from_stop_total) auto
qed

lemma run_total:
  assumes "well_formed tt" and "set fs \<subseteq> set (stops tt)" and "fs = [] \<or> 0 \<le> rounds"
  shows "\<exists>bag. run tt ord fs ts d rounds = Some bag"
proof -
  from run_init_total [OF assms(2,3)] obtain sn where sn: "run_init tt fs ts d rounds = Some sn"
    "dom_inv tt rounds (fst sn)" by blast
  have "1 + int (nat rounds) \<le> rounds + 1 \<or> nat rounds = 0" by auto
  then have "\<exists>sn'. run_rounds tt ord 1 (nat rounds) sn = Some sn'"
  proof
    assume "1 + int (nat rounds) \<le> rounds + 1"
    with assms(1) sn(2) show ?thesis by (intro run_rounds_total) auto
  next
    assume "nat rounds = 0"
    then show ?thesis by simp
  qed
  with sn(1) show ?thesis by (auto simp: run_def run_upto_def)
qed

section \<open>The table that the query returns\<close>

lemma full_writeI1:
  "bag_star s p = Some l \<Longrightarrow> t < earliest_arrival_time l \<Longrightarrow> write_labels k p t tr (Some b) s = Some s1
     \<Longrightarrow> full_write k s s1"
  unfolding full_write_def by blast

lemma full_writeI2:
  "bag_star s p = Some l \<Longrightarrow> t < earliest_arrival_time l \<Longrightarrow> write_labels k p t tr (Some b) s = Some s1
     \<Longrightarrow> t < earliest_arrival_at_destination s
     \<Longrightarrow> full_write k s (s1\<lparr>earliest_arrival_at_destination := t\<rparr>)"
  unfolding full_write_def by blast

lemma arrive_by_trip_full:
  assumes "arrive_by_trip k p c = Some c'" and "boarded c"
  shows "(full_write k)\<^sup>=\<^sup>= (st c) (st c')" and "boarded c'"
proof -
  from arrive_by_trip_cases [OF assms(1)] assms(2)
  show "(full_write k)\<^sup>=\<^sup>= (st c) (st c')"
    by (auto simp: boarded_def intro: full_writeI1 full_writeI2)
  from arrive_by_trip_cases [OF assms(1)] assms(2) show "boarded c'"
    by (auto simp: boarded_def)
qed

lemma catch_trip_boarded:
  assumes "catch_trip k r p c = Some c'" and "boarded c"
  shows "boarded c'"
  using catch_trip_cases [OF assms(1)] assms(2) by (auto simp: boarded_def)

lemma traverse_stop_full:
  assumes "traverse_stop k r p c = Some c'" and "boarded c"
  shows "(full_write k)\<^sup>*\<^sup>* (st c) (st c')" and "boarded c'"
proof -
  from assms(1) obtain c1 where a: "arrive_by_trip k p c = Some c1" and b: "catch_trip k r p c1 = Some c'"
    by (auto simp: traverse_stop_def split: bind_splits)
  from arrive_by_trip_full [OF a assms(2)] catch_trip_st [OF b]
  show "(full_write k)\<^sup>*\<^sup>* (st c) (st c')" by auto
  from arrive_by_trip_full(2) [OF a assms(2)] b show "boarded c'"
    by (blast intro: catch_trip_boarded)
qed

lemma traverse_route_full:
  assumes "traverse_route k rp sn = Some sn'"
  shows "(full_write k)\<^sup>*\<^sup>* (fst sn) (fst sn')"
proof -
  let ?c0 = "\<lparr>st = fst sn, new_stops = snd sn, current_trip = None, boarding_stop = None\<rparr>"
  from assms obtain i c where
    c: "for_each (traverse_stop k (fst rp)) (drop i (route_stops (fst rp))) ?c0 = Some c"
    and sn': "sn' = (st c, new_stops c)"
    by (auto simp: traverse_route_def Let_def split: bind_splits)
  have "(full_write k)\<^sup>*\<^sup>* (fst sn) (st c) \<and> boarded c"
  proof (rule for_each_invariant [OF c])
    show "(full_write k)\<^sup>*\<^sup>* (fst sn) (st ?c0) \<and> boarded ?c0"
      by (simp add: boarded_def)
  next
    fix x a b
    assume "(full_write k)\<^sup>*\<^sup>* (fst sn) (st a) \<and> boarded a" "traverse_stop k (fst rp) x a = Some b"
    then show "(full_write k)\<^sup>*\<^sup>* (fst sn) (st b) \<and> boarded b"
      using traverse_stop_full [of k "fst rp" x a b] by auto
  qed
  with sn' show ?thesis by simp
qed

lemma traverse_routes_full:
  "traverse_routes k rms s = Some sn' \<Longrightarrow> (full_write k)\<^sup>*\<^sup>* s (fst sn')"
  unfolding traverse_routes_def
  by (drule for_each_steps [where g = fst and R = "full_write k"]) (auto dest: traverse_route_full)

lemma relax_transfer_full:
  "relax_transfer k p t tr sn = Some sn' \<Longrightarrow> (full_write k)\<^sup>*\<^sup>* (fst sn) (fst sn')"
  by (auto simp: relax_transfer_def Let_def split: option.splits bind_splits if_splits
      intro!: r_into_rtranclp intro: full_writeI1)

lemma transfers_of_stop_full:
  "transfers_of_stop tt k p sn = Some sn' \<Longrightarrow> (full_write k)\<^sup>*\<^sup>* (fst sn) (fst sn')"
  by (auto simp: transfers_of_stop_def Let_def split: bind_splits
      dest!: for_each_steps [where g = fst and R = "full_write k"] dest: relax_transfer_full)

lemma add_transfer_time_full:
  "add_transfer_time tt k ms s = Some sn' \<Longrightarrow> (full_write k)\<^sup>*\<^sup>* s (fst sn')"
  unfolding add_transfer_time_def
  by (drule for_each_steps [where g = fst and R = "full_write k"]) (auto dest: transfers_of_stop_full)

lemma round_body_full:
  assumes "round_body tt ord k sn = Some sn'"
  shows "(full_write k)\<^sup>*\<^sup>* (fst sn) (fst sn')"
proof -
  from assms obtain q sn1 sn2 where "traverse_routes k q (fst sn) = Some sn1"
    "add_transfer_time tt k (snd sn1) (fst sn1) = Some sn2" "fst sn' = fst sn2"
    by (auto simp: round_body_def split: bind_splits)
  then show ?thesis
    by (auto dest!: traverse_routes_full add_transfer_time_full)
qed

lemma full_write_star_in_rounds:
  assumes "full_write k s s'" and "star_in_rounds s"
  shows "star_in_rounds s'"
proof -
  from assms(1) obtain q t tr b s1 where w: "write_labels k q t tr (Some b) s = Some s1"
    and s': "bag_star s' = bag_star s1" "bag_round_stop s' = bag_round_stop s1"
    by (auto simp: full_write_def)
  let ?l = "\<lparr>earliest_arrival_time = t, trip = tr, from_stop = Some b\<rparr>"
  from w obtain bk where bk: "bag_round_stop s k = Some bk"
    and r: "bag_round_stop s1 = (bag_round_stop s)(k \<mapsto> bk(q \<mapsto> ?l))"
    and st: "bag_star s1 = (bag_star s)(q \<mapsto> ?l)"
    by (auto elim!: write_labelsE simp: update_all)
  show ?thesis
    unfolding star_in_rounds_def
  proof (intro allI impI)
    fix p l
    assume a: "bag_star s' p = Some l"
    show "\<exists>j bag_j. bag_round_stop s' j = Some bag_j \<and> bag_j p = Some l"
    proof (cases "p = q")
      case True
      with a have "l = ?l" unfolding s' st by simp
      with True have "bag_round_stop s' k = Some (bk(q \<mapsto> ?l)) \<and> (bk(q \<mapsto> ?l)) p = Some l"
        unfolding s' r by simp
      then show ?thesis by blast
    next
      case False
      with a have "bag_star s p = Some l" unfolding s' st by simp
      with assms(2) obtain j bj where j: "bag_round_stop s j = Some bj" "bj p = Some l"
        unfolding star_in_rounds_def by blast
      show ?thesis
      proof (cases "j = k")
        case True
        with j bk False show ?thesis unfolding s' r by auto
      next
        case f: False
        with j show ?thesis unfolding s' r by auto
      qed
    qed
  qed
qed

lemma steps_star_in_rounds:
  "(full_write k)\<^sup>*\<^sup>* s s' \<Longrightarrow> star_in_rounds s \<Longrightarrow> star_in_rounds s'"
  by (induction rule: rtranclp_induct) (auto intro: full_write_star_in_rounds)

lemma run_rounds_star_in_rounds:
  "run_rounds tt ord k n sn = Some sn' \<Longrightarrow> star_in_rounds (fst sn) \<Longrightarrow> star_in_rounds (fst sn')"
proof (induction n arbitrary: k sn)
  case 0
  then show ?case by simp
next
  case (Suc n)
  show ?case
  proof (cases "length (snd sn) > 0")
    case True
    with Suc.prems obtain sn1 where b: "round_body tt ord k sn = Some sn1"
      and r: "run_rounds tt ord (k + 1) n sn1 = Some sn'"
      by (auto split: option.splits)
    from b Suc.prems(2) have "star_in_rounds (fst sn1)"
      by (blast dest: round_body_full steps_star_in_rounds)
    with Suc.IH [OF r] show ?thesis by simp
  next
    case False
    with Suc.prems show ?thesis by simp
  qed
qed

lemma init_state_star_in_round_0: "0 \<le> rounds \<Longrightarrow> star_in_round_0 (init_state tt ts rounds)"
  by (auto simp: star_in_round_0_def init_state_def empty_bag_def fold_labels_apply split: if_splits)

lemma init_from_stop_star_in_round_0:
  assumes "init_from_stop d p sn = Some sn'" and "star_in_round_0 (fst sn)"
  shows "star_in_round_0 (fst sn')"
proof -
  from assms(1) obtain b0 l0 ls where b0: "bag_round_stop (fst sn) 0 = Some b0" "b0 p = Some l0"
    and ls: "bag_star (fst sn) p = Some ls"
    and r: "bag_round_stop (fst sn') = (bag_round_stop (fst sn))(0 \<mapsto> b0(p \<mapsto> update (Some d) None None l0))"
    and s: "bag_star (fst sn') = (bag_star (fst sn))(p \<mapsto> update (Some d) None None ls)"
    by (auto simp: init_from_stop_def split: bind_splits)
  from assms(2) b0 have same: "\<And>q l. bag_star (fst sn) q = Some l \<Longrightarrow> b0 q = Some l"
    unfolding star_in_round_0_def by auto
  from same [OF ls] b0 have "l0 = ls" by simp
  with same show ?thesis
    unfolding star_in_round_0_def r s by auto
qed

lemma run_init_star_in_rounds:
  assumes "run_init tt fs ts d rounds = Some sn" and "0 \<le> rounds"
  shows "star_in_rounds (fst sn)"
proof -
  have "star_in_round_0 (fst sn)"
    by (rule for_each_invariant [OF assms(1) [unfolded run_init_def]])
       (auto intro: init_state_star_in_round_0 init_from_stop_star_in_round_0 assms(2))
  then show ?thesis unfolding star_in_round_0_def star_in_rounds_def by blast
qed

lemma run_upto_star_in_rounds:
  assumes "run_upto tt ord fs ts d rounds n = Some sn" and "0 \<le> rounds"
  shows "star_in_rounds (fst sn)"
  using assms
  by (auto simp: run_upto_def split: bind_splits
      dest!: run_init_star_in_rounds dest: run_rounds_star_in_rounds)

lemma run_best_known:
  assumes run: "run tt ord from_stops to_station dep_secs rounds = Some bag"
  shows "\<exists>sn. run_upto tt ord from_stops to_station dep_secs rounds (nat rounds) = Some sn
           \<and> bag = bag_star (fst sn)
           \<and> (0 \<le> rounds \<and> bag p = Some l \<longrightarrow>
                (\<exists>k bag_k. 0 \<le> k \<and> k \<le> rounds \<and> bag_round_stop (fst sn) k = Some bag_k \<and> bag_k p = Some l))
           \<and> (dep_secs \<le> LARGE_NUMBER \<and> bag p = Some l \<and> bag_round_stop (fst sn) j = Some bag_j
                \<and> bag_j p = Some label_j \<longrightarrow> earliest_arrival_time l \<le> earliest_arrival_time label_j)"
proof -
  from run obtain sn where sn: "run_upto tt ord from_stops to_station dep_secs rounds (nat rounds) = Some sn"
    and bag: "bag = bag_star (fst sn)"
    by (auto simp: run_def)
  have 1: "\<exists>k bag_k. 0 \<le> k \<and> k \<le> rounds \<and> bag_round_stop (fst sn) k = Some bag_k \<and> bag_k p = Some l"
    if a: "0 \<le> rounds" "bag p = Some l"
  proof -
    from run_upto_star_in_rounds [OF sn a(1)] a(2) obtain k bag_k where
      k: "bag_round_stop (fst sn) k = Some bag_k" "bag_k p = Some l"
      unfolding star_in_rounds_def bag by blast
    from run_upto_dom(2) [OF sn, of k] k(1) have "0 \<le> k \<and> k \<le> rounds"
      by (auto split: if_splits)
    with k show ?thesis by blast
  qed
  have 2: "earliest_arrival_time l \<le> earliest_arrival_time label_j"
    if a: "dep_secs \<le> LARGE_NUMBER" "bag p = Some l" "bag_round_stop (fst sn) j = Some bag_j" "bag_j p = Some label_j"
    using run_upto_star_below_rounds [OF sn a(1)] a(2-4)
    unfolding star_below_rounds_def bag by blast
  from sn bag 1 2 show ?thesis by blast
qed

lemma fixture_run_returns:
  "run default_timetable remdups [Stop ''A''] station_F 100 2 \<noteq> None"
  by (simp add: model_defs Let_def numeral_2_eq_2)

text \<open>
  Claim C4, as stated, fails: on the fixture the station F is not a key of the table that
  \<^verbatim>\<open>run\<close> returns.
\<close>

theorem run_keys_counterexample:
  "run default_timetable remdups [Stop ''A''] station_F 100 2 \<noteq> None
   \<and> Station ''F'' \<in> station_key ` set (stations default_timetable)
   \<and> Station ''F'' \<notin> dom (the (run default_timetable remdups [Stop ''A''] station_F 100 2))"
proof -
  from fixture_run_returns obtain bag where
    bag: "run default_timetable remdups [Stop ''A''] station_F 100 2 = Some bag"
    by blast
  then have "dom bag = set (stops default_timetable)" by (rule run_dom)
  then have "Station ''F'' \<notin> dom bag" by (simp add: default_timetable_def)
  with bag show ?thesis by (simp add: default_timetable_def station_key_def)
qed

text \<open>
  Claim C4, amended.  A point query on a well-formed timetable, from origin stops of the
  timetable and with a non-negative number of rounds, returns a table.  The table that
  \<^verbatim>\<open>run\<close> returns is the global-best table of the state after the rounds, and its key set
  is the set of the stops of the timetable.  It maps a stop to its best-known label: with a
  non-negative number of rounds this label is the label of the stop in the table of one of
  the rounds 0 to \<open>rounds\<close>, and with a departure time that does not exceed the sentinel
  its arrival time is not later than that of the label of the stop in the table of any
  round.  The stations are keys of the per-round tables only: every per-round table of the
  rounds 0 to \<open>rounds\<close> has the stops and the stations of the timetable as its keys.
\<close>

theorem run_keys:
  "(well_formed tt \<and> set from_stops \<subseteq> set (stops tt) \<and> (from_stops = [] \<or> 0 \<le> rounds) \<longrightarrow>
      (\<exists>table. run tt ord from_stops to_station dep_secs rounds = Some table))
   \<and> (run tt ord from_stops to_station dep_secs rounds = Some bag \<longrightarrow>
        dom bag = set (stops tt)
        \<and> (\<exists>final. run_upto tt ord from_stops to_station dep_secs rounds (nat rounds) = Some final
              \<and> bag = bag_star (fst final)
              \<and> (0 \<le> rounds \<and> bag p = Some l \<longrightarrow>
                   (\<exists>j bag_j. 0 \<le> j \<and> j \<le> rounds \<and> bag_round_stop (fst final) j = Some bag_j
                      \<and> bag_j p = Some l))
              \<and> (dep_secs \<le> LARGE_NUMBER \<and> bag p = Some l \<and> bag_round_stop (fst final) i = Some bag_i
                   \<and> bag_i p = Some label_i \<longrightarrow>
                   earliest_arrival_time l \<le> earliest_arrival_time label_i)))
   \<and> (run_upto tt ord from_stops to_station dep_secs rounds n = Some sn \<longrightarrow>
        dom (bag_star (fst sn)) = set (stops tt)
        \<and> map_option dom (bag_round_stop (fst sn) k)
            = (if 0 \<le> k \<and> k \<le> rounds then Some (set (stops tt) \<union> station_key ` set (stations tt)) else None))"
  using run_dom [of tt ord from_stops to_station dep_secs rounds bag]
    run_best_known [of tt ord from_stops to_station dep_secs rounds bag p l i bag_i label_i]
    run_upto_dom(1) [of tt ord from_stops to_station dep_secs rounds n sn]
    run_upto_dom(2) [of tt ord from_stops to_station dep_secs rounds n sn k]
    run_total [of tt from_stops rounds ord to_station dep_secs]
  by blast

lemma well_formed_default_timetable: "well_formed default_timetable"
  by (simp add: well_formed_def default_timetable_def times_of_def trip_101_def trip_202_def
      trip_303_def stop_time_def)

lemma fixture_final_rounds:
  "the (run default_timetable remdups [Stop ''A''] station_F 100 2) (Stop ''F'')
     = Some \<lparr>earliest_arrival_time = 1500, trip = Some (ByTrip (trip_202 0 0)), from_stop = Some (Stop ''C'')\<rparr>"
  "bag_round_stop (fst (the (run_upto default_timetable remdups [Stop ''A''] station_F 100 2 2))) 1 \<noteq> None"
  "the (bag_round_stop (fst (the (run_upto default_timetable remdups [Stop ''A''] station_F 100 2 2))) 1) (Stop ''F'')
     = Some Label"
  by (simp_all add: model_defs Let_def numeral_2_eq_2)

theorem run_keys_witness:
  "well_formed default_timetable
   \<and> set [Stop ''A''] \<subseteq> set (stops default_timetable)
   \<and> (0::int) \<le> 2 \<and> (100::int) \<le> LARGE_NUMBER
   \<and> run default_timetable remdups [Stop ''A''] station_F 100 2 \<noteq> None
   \<and> dom (the (run default_timetable remdups [Stop ''A''] station_F 100 2))
       = {Stop ''A'', Stop ''C'', Stop ''F'', Stop ''X''}
   \<and> run_upto default_timetable remdups [Stop ''A''] station_F 100 2 2 \<noteq> None
   \<and> the (run default_timetable remdups [Stop ''A''] station_F 100 2)
       = bag_star (fst (the (run_upto default_timetable remdups [Stop ''A''] station_F 100 2 2)))
   \<and> the (run default_timetable remdups [Stop ''A''] station_F 100 2) (Stop ''F'')
       = Some \<lparr>earliest_arrival_time = 1500, trip = Some (ByTrip (trip_202 0 0)), from_stop = Some (Stop ''C'')\<rparr>
   \<and> (\<exists>j bag_j. 0 \<le> j \<and> j \<le> 2
         \<and> bag_round_stop (fst (the (run_upto default_timetable remdups [Stop ''A''] station_F 100 2 2))) j = Some bag_j
         \<and> bag_j (Stop ''F'')
             = Some \<lparr>earliest_arrival_time = 1500, trip = Some (ByTrip (trip_202 0 0)), from_stop = Some (Stop ''C'')\<rparr>)
   \<and> the (bag_round_stop (fst (the (run_upto default_timetable remdups [Stop ''A''] station_F 100 2 2))) 1) (Stop ''F'')
       = Some Label
   \<and> (1500::int) \<le> earliest_arrival_time Label
   \<and> map_option dom (bag_round_stop (fst (the (run_upto default_timetable remdups [Stop ''A''] station_F 100 2 2))) 1)
       = Some ({Stop ''A'', Stop ''C'', Stop ''F'', Stop ''X''}
               \<union> {Station ''A'', Station ''C'', Station ''F'', Station ''X''})"
proof -
  let ?l = "\<lparr>earliest_arrival_time = 1500, trip = Some (ByTrip (trip_202 0 0)), from_stop = Some (Stop ''C'')\<rparr>"
  let ?final = "the (run_upto default_timetable remdups [Stop ''A''] station_F 100 2 2)"
  have 0: "set [Stop ''A''] \<subseteq> set (stops default_timetable)" "(100::int) \<le> LARGE_NUMBER"
    by (simp_all add: default_timetable_def LARGE_NUMBER_def)
  have 3: "set (stops default_timetable) = {Stop ''A'', Stop ''C'', Stop ''F'', Stop ''X''}"
    "station_key ` set (stations default_timetable) = {Station ''A'', Station ''C'', Station ''F'', Station ''X''}"
    by (simp_all add: default_timetable_def station_key_def)
  note inst = run_keys [where tt = default_timetable and ord = remdups and from_stops = "[Stop ''A'']"
        and to_station = station_F and dep_secs = 100 and rounds = 2
        and bag = "the (run default_timetable remdups [Stop ''A''] station_F 100 2)"
        and n = 2 and k = 1 and sn = ?final and p = "Stop ''F''" and l = ?l and i = 1
        and bag_i = "the (bag_round_stop (fst ?final) 1)" and label_i = Label]
  from inst well_formed_default_timetable 0
  have 1: "run default_timetable remdups [Stop ''A''] station_F 100 2 \<noteq> None"
    by auto
  then have 2: "run_upto default_timetable remdups [Stop ''A''] station_F 100 2 2 \<noteq> None"
    by (simp add: run_def)
  show ?thesis
    using 0 1 2 3 inst well_formed_default_timetable fixture_final_rounds
    by auto
qed
section \<open>The from-stop chains end\<close>

lemma linked_write_guarded: "linked_write k s s' \<Longrightarrow> guarded_write k s s'"
  unfolding linked_write_def guarded_write_def by blast

lemma pred_rel_path:
  assumes mono: "\<And>p l b. bag p = Some l \<Longrightarrow> from_stop l = Some b \<Longrightarrow>
      \<exists>lb. bag b = Some lb \<and> earliest_arrival_time lb \<le> earliest_arrival_time l"
    and path: "(x, y) \<in> (pred_rel bag)\<^sup>*" and y: "bag y = Some ly"
  shows "\<exists>lx. bag x = Some lx \<and> earliest_arrival_time lx \<le> earliest_arrival_time ly"
  using path y
proof (induction arbitrary: ly rule: rtrancl_induct)
  case base
  then show ?case by simp
next
  case (step y z)
  from step.hyps(2) step.prems obtain "from_stop ly = Some y"
    by (auto simp: pred_rel_def)
  from mono [OF step.prems this] obtain l' where l': "bag y = Some l'"
    "earliest_arrival_time l' \<le> earliest_arrival_time ly" by blast
  from step.IH [OF l'(1)] l'(2) show ?case by fastforce
qed

lemma pred_rel_update:
  assumes "from_stop l' = Some b"
  shows "pred_rel (bag(q \<mapsto> l')) = insert (b, q) (pred_rel bag - {(x, y). y = q})"
  using assms by (auto simp: pred_rel_def split: if_splits)

lemma linked_write_chain_inv:
  assumes inv: "chain_inv tt s" and w: "linked_write k s s'"
  shows "chain_inv tt s'"
proof -
  from w obtain q t tr b l lb s1 where l: "bag_star s q = Some l" "t < earliest_arrival_time l"
    and lb: "bag_star s b = Some lb" "earliest_arrival_time lb \<le> t"
    and w1: "write_labels k q t tr (Some b) s = Some s1"
    and s1: "s' = s1 \<or> (t < earliest_arrival_at_destination s \<and> s' = s1\<lparr>earliest_arrival_at_destination := t\<rparr>)"
    unfolding linked_write_def by blast
  from w1 l obtain bk lk where bk: "bag_round_stop s k = Some bk" "bk q = Some lk"
    and r: "bag_round_stop s1 = (bag_round_stop s)(k \<mapsto> bk(q \<mapsto> update (Some t) tr (Some b) lk))"
    and st: "bag_star s1 = (bag_star s)(q \<mapsto> update (Some t) tr (Some b) l)"
    and e1: "earliest_arrival_at_destination s1 = earliest_arrival_at_destination s"
    by (auto elim!: write_labelsE)
  from s1 e1 have s': "bag_round_stop s' = bag_round_stop s1" "bag_star s' = bag_star s1"
      "earliest_arrival_at_destination s' = earliest_arrival_at_destination s
       \<or> (t < earliest_arrival_at_destination s \<and> earliest_arrival_at_destination s' = t)"
    by auto
  let ?l' = "update (Some t) tr (Some b) l"
  from inv have ead: "earliest_arrival_at_destination s \<le> LARGE_NUMBER"
    and d: "dom (bag_star s) = set (stops tt)"
    and j3: "\<And>j bag_j p label_j l. bag_round_stop s j = Some bag_j \<Longrightarrow> bag_j p = Some label_j \<Longrightarrow>
           bag_star s p = Some l \<Longrightarrow>
           earliest_arrival_time l \<le> earliest_arrival_time label_j \<or> LARGE_NUMBER \<le> earliest_arrival_time label_j"
    and mono: "\<And>p l b. bag_star s p = Some l \<Longrightarrow> from_stop l = Some b \<Longrightarrow>
           \<exists>lb. bag_star s b = Some lb \<and> earliest_arrival_time lb \<le> earliest_arrival_time l"
    and acyc: "acyclic (pred_rel (bag_star s))"
    unfolding chain_inv_def by blast+
  have 1: "earliest_arrival_at_destination s' \<le> LARGE_NUMBER"
    using s'(3) ead by auto
  have 2: "dom (bag_star s') = set (stops tt)"
  proof -
    from l(1) have "q \<in> dom (bag_star s)" by blast
    then have "dom (bag_star s') = dom (bag_star s)"
      unfolding s' st by (simp add: insert_absorb)
    with d show ?thesis by simp
  qed
  have 3: "earliest_arrival_time l2 \<le> earliest_arrival_time label_j \<or> LARGE_NUMBER \<le> earliest_arrival_time label_j"
    if a: "bag_round_stop s' j = Some bag_j" "bag_j p = Some label_j" "bag_star s' p = Some l2"
    for j bag_j p label_j l2
  proof (cases "p = q")
    case True
    with a(3) have e: "earliest_arrival_time l2 = t" unfolding s' st by auto
    show ?thesis
    proof (cases "j = k")
      case True
      with a(1,2) \<open>p = q\<close> have "earliest_arrival_time label_j = t" unfolding s' r by auto
      with e show ?thesis by simp
    next
      case False
      with a(1,2) \<open>p = q\<close> have "bag_round_stop s j = Some bag_j" "bag_j q = Some label_j"
        unfolding s' r by auto
      from j3 [OF this l(1)] e l(2) show ?thesis by auto
    qed
  next
    case False
    with a(3) have l2: "bag_star s p = Some l2" unfolding s' st by auto
    from False a(1,2) bk obtain b0 where "bag_round_stop s j = Some b0" "b0 p = Some label_j"
      unfolding s' r by (cases "j = k") auto
    from j3 [OF this l2] show ?thesis .
  qed
  have 4: "\<exists>lb. bag_star s' b2 = Some lb \<and> earliest_arrival_time lb \<le> earliest_arrival_time l2"
    if a: "bag_star s' p = Some l2" "from_stop l2 = Some b2" for p l2 b2
  proof (cases "p = q")
    case True
    with a have "l2 = ?l'" "b2 = b" unfolding s' st by auto
    with lb show ?thesis unfolding s' st by auto
  next
    case False
    with a(1) have "bag_star s p = Some l2" unfolding s' st by auto
    from mono [OF this a(2)] obtain lb2 where lb2: "bag_star s b2 = Some lb2"
      "earliest_arrival_time lb2 \<le> earliest_arrival_time l2" by blast
    show ?thesis
    proof (cases "b2 = q")
      case True
      with lb2 l show ?thesis unfolding s' st by auto
    next
      case False
      with lb2 show ?thesis unfolding s' st by auto
    qed
  qed
  have 5: "acyclic (pred_rel (bag_star s'))"
  proof -
    let ?R0 = "pred_rel (bag_star s) - {(x, y). y = q}"
    have eq: "pred_rel (bag_star s') = insert (b, q) ?R0"
      unfolding s' st by (rule pred_rel_update) simp
    have "acyclic ?R0" using acyc by (rule acyclic_subset) blast
    moreover have "(q, b) \<notin> ?R0\<^sup>*"
    proof
      assume "(q, b) \<in> ?R0\<^sup>*"
      then have "(q, b) \<in> (pred_rel (bag_star s))\<^sup>*"
        by (rule rtrancl_mono [THEN subsetD, rotated]) blast
      from pred_rel_path [OF mono this lb(1)] l lb(2) show False by auto
    qed
    ultimately show ?thesis unfolding eq by simp
  qed
  from 1 2 3 4 5 show ?thesis unfolding chain_inv_def by blast
qed

lemma chain_inv_walk:
  assumes inv: "chain_inv tt s" and d: "p \<in> set (stops tt)"
  shows "\<exists>ls. from_stop_walk (bag_star s) p ls"
proof -
  let ?R = "pred_rel (bag_star s)"
  from inv have dm: "dom (bag_star s) = set (stops tt)"
    and mono: "\<And>p l b. bag_star s p = Some l \<Longrightarrow> from_stop l = Some b \<Longrightarrow>
           \<exists>lb. bag_star s b = Some lb \<and> earliest_arrival_time lb \<le> earliest_arrival_time l"
    and acyc: "acyclic ?R"
    unfolding chain_inv_def by blast+
  have "?R \<subseteq> set (stops tt) \<times> set (stops tt)"
    using dm mono by (fastforce simp: pred_rel_def)
  then have "finite ?R" by (rule finite_subset) simp
  then have "wf ?R" using acyc by (rule finite_acyclic_wf)
  then have "p \<in> dom (bag_star s) \<longrightarrow> (\<exists>ls. from_stop_walk (bag_star s) p ls)"
  proof (induction p rule: wf_induct_rule)
    case (less p)
    show ?case
    proof
      assume "p \<in> dom (bag_star s)"
      then obtain l where l: "bag_star s p = Some l" by blast
      show "\<exists>ls. from_stop_walk (bag_star s) p ls"
      proof (cases "from_stop l")
        case None
        with l show ?thesis by (blast intro: from_stop_walk.origin)
      next
        case (Some b)
        with l have "(b, p) \<in> ?R" by (auto simp: pred_rel_def)
        moreover from mono [OF l Some] have "b \<in> dom (bag_star s)" by blast
        ultimately obtain ls where "from_stop_walk (bag_star s) b ls"
          using less.IH by blast
        with l Some show ?thesis by (blast intro: from_stop_walk.step)
      qed
    qed
  qed
  with d dm show ?thesis by simp
qed

lemma linked_writeI1:
  "bag_star s p = Some l \<Longrightarrow> t < earliest_arrival_time l \<Longrightarrow> bag_star s b = Some lb
     \<Longrightarrow> earliest_arrival_time lb \<le> t \<Longrightarrow> write_labels k p t tr (Some b) s = Some s1
     \<Longrightarrow> linked_write k s s1"
  unfolding linked_write_def by blast

lemma linked_writeI2:
  "bag_star s p = Some l \<Longrightarrow> t < earliest_arrival_time l \<Longrightarrow> bag_star s b = Some lb
     \<Longrightarrow> earliest_arrival_time lb \<le> t \<Longrightarrow> write_labels k p t tr (Some b) s = Some s1
     \<Longrightarrow> t < earliest_arrival_at_destination s
     \<Longrightarrow> linked_write k s (s1\<lparr>earliest_arrival_at_destination := t\<rparr>)"
  unfolding linked_write_def by blast

lemma write_labels_other:
  assumes "write_labels k q t tr fs s = Some s1" and "b \<noteq> q"
  shows "bag_star s1 b = bag_star s b"
  using assms by (auto elim!: write_labelsE)

lemma arrive_by_trip_scan_inv:
  assumes inv: "scan_inv tt k r (p # rest) c" and a: "arrive_by_trip k p c = Some c'"
  shows "scan_inv tt k r (p # rest) c'"
  using arrive_by_trip_cases [OF a]
proof (elim disjE exE conjE)
  assume "c' = c"
  with inv show ?thesis by simp
next
  fix t y l s1
  assume ct: "current_trip c = Some t" and y: "get_stop t p = Some y"
    and l: "bag_star (st c) p = Some l" "dts_arr y < earliest_arrival_time l"
    and e: "dts_arr y < earliest_arrival_at_destination (st c)"
    and w: "write_labels k p (dts_arr y) (Some (ByTrip t)) (boarding_stop c) (st c) = Some s1"
    and c': "c' = c\<lparr>st := if p \<in> set (destination_stops s1)
                          then s1\<lparr>earliest_arrival_at_destination := dts_arr y\<rparr> else s1,
                   new_stops := new_stops c @ [p]\<rparr>"
  from inv have ci: "chain_inv tt (st c)" and ms: "marked_sync k (st c) (new_stops c)"
    and pre: "\<exists>pre. route_stops r = pre @ p # rest"
    unfolding scan_inv_def by blast+
  from inv ct obtain b x lb where tr: "t \<in> set (route_trips r)"
    and b: "boarding_stop c = Some b" "b \<notin> set (p # rest)" "get_stop t b = Some x"
      "bag_star (st c) b = Some lb"
      "earliest_arrival_time lb \<le> dts_dep x \<or> LARGE_NUMBER \<le> dts_dep x"
    and later: "\<forall>q \<in> set (p # rest). \<forall>y. get_stop t q = Some y \<longrightarrow> dts_dep x \<le> dts_arr y"
    unfolding scan_inv_def by blast
  from later y have xy: "dts_dep x \<le> dts_arr y" by simp
  from ci have "earliest_arrival_at_destination (st c) \<le> LARGE_NUMBER"
    unfolding chain_inv_def by blast
  with e xy b(5) have lb: "earliest_arrival_time lb \<le> dts_arr y" by linarith
  let ?s' = "if p \<in> set (destination_stops s1)
             then s1\<lparr>earliest_arrival_at_destination := dts_arr y\<rparr> else s1"
  from w b(1) have w': "write_labels k p (dts_arr y) (Some (ByTrip t)) (Some b) (st c) = Some s1"
    by simp
  have lw: "linked_write k (st c) ?s'"
    using linked_writeI1 [OF l b(4) lb w'] linked_writeI2 [OF l b(4) lb w' e] by simp
  with ci have 1: "chain_inv tt ?s'" by (rule linked_write_chain_inv)
  have 2: "marked_sync k ?s' (new_stops c @ [p])"
    using write_labels_marked_sync [OF w ms] by simp
  from b(2) have "b \<noteq> p" by simp
  with w have "bag_star s1 b = bag_star (st c) b" by (rule write_labels_other)
  with b(4) have 3: "bag_star ?s' b = Some lb" by simp
  have 4: "\<forall>t'. current_trip c = Some t' \<longrightarrow>
          t' \<in> set (route_trips r)
          \<and> (\<exists>b x lb. boarding_stop c = Some b \<and> b \<notin> set (p # rest) \<and> get_stop t' b = Some x
                \<and> bag_star ?s' b = Some lb
                \<and> (earliest_arrival_time lb \<le> dts_dep x \<or> LARGE_NUMBER \<le> dts_dep x)
                \<and> (\<forall>p \<in> set (p # rest). \<forall>y. get_stop t' p = Some y \<longrightarrow> dts_dep x \<le> dts_arr y))"
  proof (intro allI impI)
    fix t'
    assume "current_trip c = Some t'"
    with ct have "t' = t" by simp
    show "t' \<in> set (route_trips r)
          \<and> (\<exists>b x lb. boarding_stop c = Some b \<and> b \<notin> set (p # rest) \<and> get_stop t' b = Some x
                \<and> bag_star ?s' b = Some lb
                \<and> (earliest_arrival_time lb \<le> dts_dep x \<or> LARGE_NUMBER \<le> dts_dep x)
                \<and> (\<forall>p \<in> set (p # rest). \<forall>y. get_stop t' p = Some y \<longrightarrow> dts_dep x \<le> dts_arr y))"
      unfolding \<open>t' = t\<close> using tr b(1,2,3,5) 3 later by blast
  qed
  have "scan_inv tt k r (p # rest) (c\<lparr>st := ?s', new_stops := new_stops c @ [p]\<rparr>)"
    unfolding scan_inv_def using 1 2 pre 4 by simp
  then show ?thesis unfolding c' .
qed

lemma catch_trip_scan_inv:
  assumes wf: "well_formed tt" and r: "r \<in> set (routes tt)"
    and inv: "scan_inv tt k r (p # rest) c" and a: "catch_trip k r p c = Some c'"
  shows "scan_inv tt k r rest c'"
proof -
  from inv obtain pre where pre: "route_stops r = pre @ p # rest"
    unfolding scan_inv_def by blast
  from wf r have dist: "distinct (route_stops r)" and sub: "set (route_stops r) \<subseteq> set (stops tt)"
    and trips: "\<And>t. t \<in> set (route_trips r) \<Longrightarrow>
      map tst_stop (stop_times t) = route_stops r \<and> sorted (times_of t)"
    unfolding well_formed_def by blast+
  from dist pre have np: "p \<notin> set rest" by simp
  from inv have ci: "chain_inv tt (st c)" and ms: "marked_sync k (st c) (new_stops c)"
    unfolding scan_inv_def by blast+
  have pre': "\<exists>pre'. route_stops r = pre' @ rest"
    using pre by (intro exI [of _ "pre @ [p]"]) simp
  from catch_trip_cases [OF a] show ?thesis
  proof (elim disjE exE conjE)
    assume "c' = c"
    have "scan_inv tt k r rest c"
      unfolding scan_inv_def
    proof (intro conjI allI impI)
      fix t
      assume ct: "current_trip c = Some t"
      with inv obtain b x lb where "t \<in> set (route_trips r)"
        and b: "boarding_stop c = Some b" "b \<notin> set (p # rest)" "get_stop t b = Some x"
          "bag_star (st c) b = Some lb"
          "earliest_arrival_time lb \<le> dts_dep x \<or> LARGE_NUMBER \<le> dts_dep x"
          "\<forall>q \<in> set (p # rest). \<forall>y. get_stop t q = Some y \<longrightarrow> dts_dep x \<le> dts_arr y"
        unfolding scan_inv_def by blast
      then show "t \<in> set (route_trips r)" by simp
      from b have "b \<notin> set rest"
        "\<forall>q \<in> set rest. \<forall>y. get_stop t q = Some y \<longrightarrow> dts_dep x \<le> dts_arr y" by simp_all
      with b(1,3,4,5)
      show "\<exists>b x lb. boarding_stop c = Some b \<and> b \<notin> set rest \<and> get_stop t b = Some x
                \<and> bag_star (st c) b = Some lb
                \<and> (earliest_arrival_time lb \<le> dts_dep x \<or> LARGE_NUMBER \<le> dts_dep x)
                \<and> (\<forall>p \<in> set rest. \<forall>y. get_stop t p = Some y \<longrightarrow> dts_dep x \<le> dts_arr y)"
        by blast
    qed (use ci ms pre' in simp_all)
    with \<open>c' = c\<close> show ?thesis by simp
  next
    fix bp lp e
    assume bp: "bag_round_stop (st c) (k - 1) = Some bp" "bp p = Some lp"
      and e: "earliest_trip_stop_time r (earliest_arrival_time lp) p = Some e"
      and c': "c' = c\<lparr>current_trip := Some (fst e), boarding_stop := Some p\<rparr>"
    note e' = earliest_trip_stop_time_Some [OF e]
    from pre sub have "p \<in> set (stops tt)" by auto
    with ci obtain l where l: "bag_star (st c) p = Some l"
      unfolding chain_inv_def by blast
    from ci bp l have "earliest_arrival_time l \<le> earliest_arrival_time lp
        \<or> LARGE_NUMBER \<le> earliest_arrival_time lp"
      unfolding chain_inv_def by blast
    with e'(3) have bound: "earliest_arrival_time l \<le> dts_dep (snd e) \<or> LARGE_NUMBER \<le> dts_dep (snd e)"
      by linarith
    have later: "\<forall>q \<in> set rest. \<forall>y. get_stop (fst e) q = Some y \<longrightarrow> dts_dep (snd e) \<le> dts_arr y"
    proof (intro ballI allI impI)
      fix q y
      assume q: "q \<in> set rest" and y: "get_stop (fst e) q = Some y"
      from trips [OF e'(1)] pre have f: "map tst_stop (stop_times (fst e)) = pre @ p # rest"
        and s: "sorted (times_of (fst e))" by simp_all
      from dist pre have d: "distinct (pre @ p # rest)" by simp
      from trip_times_along_route [OF f d s e'(2) q y] show "dts_dep (snd e) \<le> dts_arr y" .
    qed
    have "scan_inv tt k r rest (c\<lparr>current_trip := Some (fst e), boarding_stop := Some p\<rparr>)"
      unfolding scan_inv_def
    proof (intro conjI allI impI)
      fix t
      assume "current_trip (c\<lparr>current_trip := Some (fst e), boarding_stop := Some p\<rparr>) = Some t"
      then have t: "t = fst e" by simp
      from e'(1) show "t \<in> set (route_trips r)" unfolding t .
      from np e'(2) l bound later
      show "\<exists>b x lb. boarding_stop (c\<lparr>current_trip := Some (fst e), boarding_stop := Some p\<rparr>) = Some b
                \<and> b \<notin> set rest \<and> get_stop t b = Some x
                \<and> bag_star (st (c\<lparr>current_trip := Some (fst e), boarding_stop := Some p\<rparr>)) b = Some lb
                \<and> (earliest_arrival_time lb \<le> dts_dep x \<or> LARGE_NUMBER \<le> dts_dep x)
                \<and> (\<forall>p \<in> set rest. \<forall>y. get_stop t p = Some y \<longrightarrow> dts_dep x \<le> dts_arr y)"
        unfolding t by simp
    qed (use ci ms pre' in simp_all)
    then show ?thesis unfolding c' .
  qed
qed

lemma traverse_stop_scan_inv:
  assumes "well_formed tt" and "r \<in> set (routes tt)"
    and "scan_inv tt k r (p # rest) c" and "traverse_stop k r p c = Some c'"
  shows "scan_inv tt k r rest c'"
proof -
  from assms(4) obtain c1 where 1: "arrive_by_trip k p c = Some c1" and 2: "catch_trip k r p c1 = Some c'"
    by (auto simp: traverse_stop_def split: bind_splits)
  from assms(3) 1 have "scan_inv tt k r (p # rest) c1" by (rule arrive_by_trip_scan_inv)
  with assms(1,2) show ?thesis using 2 by (rule catch_trip_scan_inv)
qed

lemma traverse_route_inv:
  assumes wf: "well_formed tt" and r: "fst rp \<in> set (routes tt)"
    and inv: "chain_inv tt (fst sn)" "marked_sync k (fst sn) (snd sn)"
    and t: "traverse_route k rp sn = Some sn'"
  shows "chain_inv tt (fst sn') \<and> marked_sync k (fst sn') (snd sn')"
proof -
  from t obtain i c where
    c: "for_each (traverse_stop k (fst rp)) (drop i (route_stops (fst rp)))
          \<lparr>st = fst sn, new_stops = snd sn, current_trip = None, boarding_stop = None\<rparr> = Some c"
    and sn': "sn' = (st c, new_stops c)"
    by (auto simp: traverse_route_def Let_def split: bind_splits)
  have "route_stops (fst rp) = take i (route_stops (fst rp)) @ drop i (route_stops (fst rp))"
    by simp
  then have "\<exists>pre. route_stops (fst rp) = pre @ drop i (route_stops (fst rp))" by (rule exI)
  with inv have "scan_inv tt k (fst rp) (drop i (route_stops (fst rp)))
      \<lparr>st = fst sn, new_stops = snd sn, current_trip = None, boarding_stop = None\<rparr>"
    unfolding scan_inv_def by simp
  with c have "scan_inv tt k (fst rp) [] c"
    by (rule for_each_invariant_rest) (rule traverse_stop_scan_inv [OF wf r])
  with sn' show ?thesis unfolding scan_inv_def by simp
qed

lemma keys_AList_update: "fst ` set (AList.update k v al) = insert k (fst ` set al)"
  by (induction al) auto

lemma accumulate_route_routes:
  assumes "accumulate_route p r q = Some q'" and "fst ` set q \<subseteq> R" and "r \<in> R"
  shows "fst ` set q' \<subseteq> R"
proof -
  from assms(1) have "q' = q \<or> q' = AList.update r p q"
    by (auto simp: accumulate_route_def split: option.splits bind_splits if_splits)
  then show ?thesis
  proof
    assume "q' = q"
    with assms(2) show ?thesis by simp
  next
    assume "q' = AList.update r p q"
    with assms(2,3) show ?thesis by (simp add: keys_AList_update)
  qed
qed

lemma accumulate_routes_routes:
  assumes "accumulate_routes tt ms = Some q"
  shows "fst ` set q \<subseteq> set (routes tt)"
proof -
  have inner: "fst ` set b \<subseteq> set (routes tt)"
    if "for_each (accumulate_route p) (get_routes_of_stop tt p) a = Some b"
      and "fst ` set a \<subseteq> set (routes tt)" for p a b
    using that(1,2)
  proof (rule for_each_invariant)
    fix x a' b'
    assume "x \<in> set (get_routes_of_stop tt p)" "fst ` set a' \<subseteq> set (routes tt)"
      "accumulate_route p x a' = Some b'"
    then show "fst ` set b' \<subseteq> set (routes tt)"
      by (intro accumulate_route_routes [of p x a' b']) (simp_all add: get_routes_of_stop_def)
  qed
  from assms [unfolded accumulate_routes_def] show ?thesis
    by (rule for_each_invariant) (simp, rule inner)
qed

lemma traverse_routes_inv:
  assumes wf: "well_formed tt" and q: "fst ` set q \<subseteq> set (routes tt)"
    and inv: "chain_inv tt s" and t: "traverse_routes k q s = Some sn'"
  shows "chain_inv tt (fst sn') \<and> marked_sync k (fst sn') (snd sn')"
proof -
  have "chain_inv tt (fst (s, [])) \<and> marked_sync k (fst (s, [])) (snd (s, []))"
    using inv by (simp add: marked_sync_def)
  with t [unfolded traverse_routes_def] show ?thesis
  proof (rule for_each_invariant)
    fix x a b
    assume "x \<in> set q" "chain_inv tt (fst a) \<and> marked_sync k (fst a) (snd a)"
      "traverse_route k x a = Some b"
    with q show "chain_inv tt (fst b) \<and> marked_sync k (fst b) (snd b)"
      by (intro traverse_route_inv [OF wf, of x a k b]) auto
  qed
qed

lemma relax_transfer_inv:
  assumes inv: "chain_inv tt (fst sn)"
    and cs: "bag_star (fst sn) cs = Some l" "earliest_arrival_time l \<le> time_sofar"
    and pos: "\<And>c. layovertime tr = Some c \<Longrightarrow> 0 < c"
    and r: "relax_transfer k cs time_sofar tr sn = Some sn'"
  shows "chain_inv tt (fst sn') \<and> (\<exists>l'. bag_star (fst sn') cs = Some l' \<and> earliest_arrival_time l' \<le> time_sofar)"
proof (cases "sn' = sn")
  case True
  with inv cs show ?thesis by simp
next
  case False
  with r obtain c prev s1 where c: "layovertime tr = Some c"
    and prev: "bag_star (fst sn) (transfer_to_stop tr) = Some prev" "time_sofar + c < earliest_arrival_time prev"
    and w: "write_labels k (transfer_to_stop tr) (time_sofar + c) (Some TRANSFER_TRIP) (Some cs) (fst sn) = Some s1"
    and sn': "fst sn' = s1"
    by (auto simp: relax_transfer_def Let_def split: option.splits bind_splits if_splits)
  from pos [OF c] cs(2) have le: "earliest_arrival_time l \<le> time_sofar + c" by simp
  from linked_writeI1 [OF prev cs(1) le w] have lw: "linked_write k (fst sn) s1" .
  with inv have "chain_inv tt s1" by (rule linked_write_chain_inv)
  moreover from lw have "kept_or_improved (fst sn) s1 cs"
    by (intro guarded_write_kept_or_improved linked_write_guarded)
  with cs have "\<exists>l'. bag_star s1 cs = Some l' \<and> earliest_arrival_time l' \<le> time_sofar"
    by (auto simp: kept_or_improved_def split: option.splits)
  ultimately show ?thesis unfolding sn' by simp
qed

lemma transfers_of_stop_inv:
  assumes wf: "well_formed tt"
    and inv: "chain_inv tt (fst sn)" "marked_sync k (fst sn) ms" and cs: "cs \<in> set ms"
    and t: "transfers_of_stop tt k cs sn = Some sn'"
  shows "chain_inv tt (fst sn') \<and> marked_sync k (fst sn') ms"
proof -
  from t obtain bk lk trs where bk: "bag_round_stop (fst sn) k = Some bk" "bk cs = Some lk"
    and trs: "from_stop_idx tt (id_of cs) = Some trs"
    and f: "for_each (relax_transfer k cs (earliest_arrival_time lk)) trs sn = Some sn'"
    by (auto simp: transfers_of_stop_def Let_def split: bind_splits)
  from inv(2) cs bk obtain l where l: "bag_star (fst sn) cs = Some l"
    "earliest_arrival_time lk = earliest_arrival_time l"
    unfolding marked_sync_def by fastforce
  from l(1) inv(1) have "cs \<in> set (stops tt)" unfolding chain_inv_def by blast
  with wf trs have pos: "\<And>tr c. tr \<in> set trs \<Longrightarrow> layovertime tr = Some c \<Longrightarrow> 0 < c"
    unfolding well_formed_def by (fastforce split: option.splits)
  let ?P = "\<lambda>a. chain_inv tt (fst a)
      \<and> (\<exists>l'. bag_star (fst a) cs = Some l' \<and> earliest_arrival_time l' \<le> earliest_arrival_time lk)"
  have "?P sn" using inv(1) l by simp
  with f have "?P sn'"
  proof (rule for_each_invariant)
    fix x a b
    assume "x \<in> set trs" "?P a" "relax_transfer k cs (earliest_arrival_time lk) x a = Some b"
    then show "?P b"
      using relax_transfer_inv [of tt a cs _ "earliest_arrival_time lk" x k b] pos [of x] by blast
  qed
  moreover from f have "(guarded_write k)\<^sup>*\<^sup>* (fst sn) (fst sn')"
    by (rule for_each_steps) (rule relax_transfer_step)
  then have "marked_sync k (fst sn') ms"
    using inv(2) by (induction rule: rtranclp_induct) (auto intro: guarded_write_marked_sync)
  ultimately show ?thesis by simp
qed

lemma add_transfer_time_inv:
  assumes wf: "well_formed tt"
    and inv: "chain_inv tt s" "marked_sync k s ms"
    and t: "add_transfer_time tt k ms s = Some sn'"
  shows "chain_inv tt (fst sn')"
proof -
  have "chain_inv tt (fst (s, [])) \<and> marked_sync k (fst (s, [])) ms"
    using inv by simp
  with t [unfolded add_transfer_time_def]
  have "chain_inv tt (fst sn') \<and> marked_sync k (fst sn') ms"
  proof (rule for_each_invariant)
    fix x a b
    assume "x \<in> set ms" "chain_inv tt (fst a) \<and> marked_sync k (fst a) ms"
      "transfers_of_stop tt k x a = Some b"
    then show "chain_inv tt (fst b) \<and> marked_sync k (fst b) ms"
      using transfers_of_stop_inv [OF wf, of a k ms x b] by blast
  qed
  then show ?thesis by simp
qed

lemma round_body_chain_inv:
  assumes wf: "well_formed tt" and inv: "chain_inv tt (fst sn)"
    and b: "round_body tt ord k sn = Some sn'"
  shows "chain_inv tt (fst sn')"
proof -
  from b obtain q sn1 sn2 where q: "accumulate_routes tt (snd sn) = Some q"
    and 1: "traverse_routes k q (fst sn) = Some sn1"
    and 2: "add_transfer_time tt k (snd sn1) (fst sn1) = Some sn2" and 3: "fst sn' = fst sn2"
    by (auto simp: round_body_def split: bind_splits)
  from traverse_routes_inv [OF wf accumulate_routes_routes [OF q] inv 1]
  have "chain_inv tt (fst sn1)" "marked_sync k (fst sn1) (snd sn1)" by simp_all
  from add_transfer_time_inv [OF wf this 2] 3 show ?thesis by simp
qed

lemma run_rounds_chain_inv:
  "well_formed tt \<Longrightarrow> run_rounds tt ord k n sn = Some sn' \<Longrightarrow> chain_inv tt (fst sn)
     \<Longrightarrow> chain_inv tt (fst sn')"
proof (induction n arbitrary: k sn)
  case 0
  then show ?case by simp
next
  case (Suc n)
  show ?case
  proof (cases "length (snd sn) > 0")
    case True
    with Suc.prems obtain sn1 where b: "round_body tt ord k sn = Some sn1"
      and r: "run_rounds tt ord (k + 1) n sn1 = Some sn'"
      by (auto split: option.splits)
    from round_body_chain_inv [OF Suc.prems(1,3) b] have "chain_inv tt (fst sn1)" .
    with Suc.IH [OF Suc.prems(1) r] show ?thesis by simp
  next
    case False
    with Suc.prems show ?thesis by simp
  qed
qed

lemma init_from_stop_init_inv:
  assumes "init_from_stop d p sn = Some sn'" and "init_inv d (fst sn)"
  shows "init_inv d (fst sn')"
proof -
  from assms have "init_labels d (fst sn')"
    unfolding init_inv_def by (blast intro: init_from_stop_init_labels)
  moreover from assms have "earliest_arrival_at_destination (fst sn') = LARGE_NUMBER"
    "\<forall>p l. bag_star (fst sn') p = Some l \<longrightarrow> from_stop l = None"
    unfolding init_inv_def by (auto simp: init_from_stop_def split: bind_splits if_splits)
  ultimately show ?thesis unfolding init_inv_def by simp
qed

lemma run_init_chain_inv:
  assumes "run_init tt fs ts d r = Some sn"
  shows "chain_inv tt (fst sn)"
proof -
  have "init_inv d (fst (init_state tt ts r, []))"
    unfolding init_inv_def using init_state_init_labels [of d tt ts r]
    by (auto simp: init_state_def fold_labels_apply Label_def split: if_splits)
  with assms [unfolded run_init_def] have i: "init_inv d (fst sn)"
    by (rule for_each_invariant) (rule init_from_stop_init_inv)
  then have "pred_rel (bag_star (fst sn)) = {}"
    unfolding init_inv_def pred_rel_def by auto
  then have "acyclic (pred_rel (bag_star (fst sn)))" by (simp add: acyclic_def)
  moreover from i have "\<forall>j bag_j p label_j l. bag_round_stop (fst sn) j = Some bag_j \<longrightarrow>
      bag_j p = Some label_j \<longrightarrow> bag_star (fst sn) p = Some l \<longrightarrow>
      earliest_arrival_time l \<le> earliest_arrival_time label_j \<or> LARGE_NUMBER \<le> earliest_arrival_time label_j"
    unfolding init_inv_def init_labels_def by (intro allI impI) (metis order_refl)
  ultimately show ?thesis
    unfolding chain_inv_def using i run_init_dom [OF assms]
    by (auto simp: init_inv_def)
qed

lemma run_chain_inv:
  assumes "well_formed tt" and "run_upto tt ord fs ts d r n = Some sn"
  shows "chain_inv tt (fst sn)"
  using assms
  by (auto simp: run_upto_def split: bind_splits dest!: run_init_chain_inv dest: run_rounds_chain_inv)

lemma from_stop_chains_aux:
  assumes wf: "well_formed tt" and run: "run tt ord from_stops to_station dep_secs rounds = Some bag"
  shows "bag p = Some l \<Longrightarrow> from_stop l = Some b \<Longrightarrow>
           \<exists>lb. bag b = Some lb \<and> earliest_arrival_time lb \<le> earliest_arrival_time l"
    and "destination \<in> set (stops tt) \<Longrightarrow>
           \<exists>ls. from_stop_walk bag destination ls
                 \<and> reconstruct_journey destination bag = Some (Journey (rev ls))"
proof -
  from run obtain sn where sn: "run_upto tt ord from_stops to_station dep_secs rounds (nat rounds) = Some sn"
    and bag: "bag = bag_star (fst sn)"
    by (auto simp: run_def)
  from run_chain_inv [OF wf sn] have ci: "chain_inv tt (fst sn)" .
  {
    assume "bag p = Some l" "from_stop l = Some b"
    with ci show "\<exists>lb. bag b = Some lb \<and> earliest_arrival_time lb \<le> earliest_arrival_time l"
      unfolding chain_inv_def bag by blast
  }
  {
    assume "destination \<in> set (stops tt)"
    with ci obtain ls where w: "from_stop_walk bag destination ls"
      unfolding bag by (blast dest: chain_inv_walk)
    from reconstruct_from_walk [OF w, of "[]"] w
    show "\<exists>ls. from_stop_walk bag destination ls
                 \<and> reconstruct_journey destination bag = Some (Journey (rev ls))"
      by (auto simp: reconstruct_journey_def)
  }
qed

text \<open>
  Claim C9, amended.  On a well-formed timetable (every route lists a stop once and its
  trips follow it with non-decreasing times; every transfer has a strictly positive
  layover cost and leads to a stop of the timetable), a point query from origin stops of
  the timetable with a non-negative number of rounds returns a table in which following a
  label's from-stop never increases the recorded arrival time (it need not decrease it),
  and the from-stop chains are acyclic: for every destination stop of the timetable the
  backward from-stop walk ends at a label with no from-stop, and \<^verbatim>\<open>reconstruct_journey\<close>
  terminates and returns the legs of that walk.
\<close>

theorem from_stop_chains_end:
  "well_formed tt \<and> set from_stops \<subseteq> set (stops tt) \<and> (from_stops = [] \<or> 0 \<le> rounds) \<longrightarrow>
     (\<exists>bag. run tt ord from_stops to_station dep_secs rounds = Some bag
        \<and> (bag p = Some l \<and> from_stop l = Some b
             \<longrightarrow> (\<exists>lb. bag b = Some lb \<and> earliest_arrival_time lb \<le> earliest_arrival_time l))
        \<and> (destination \<in> set (stops tt)
             \<longrightarrow> (\<exists>ls. from_stop_walk bag destination ls
                     \<and> reconstruct_journey destination bag = Some (Journey (rev ls)))))"
proof (intro impI, elim conjE)
  assume wf: "well_formed tt" and fs: "set from_stops \<subseteq> set (stops tt)" "from_stops = [] \<or> 0 \<le> rounds"
  from run_total [OF wf fs] obtain bag where
    run: "run tt ord from_stops to_station dep_secs rounds = Some bag" ..
  from from_stop_chains_aux [OF wf run] run
  show "\<exists>bag. run tt ord from_stops to_station dep_secs rounds = Some bag
        \<and> (bag p = Some l \<and> from_stop l = Some b
             \<longrightarrow> (\<exists>lb. bag b = Some lb \<and> earliest_arrival_time lb \<le> earliest_arrival_time l))
        \<and> (destination \<in> set (stops tt)
             \<longrightarrow> (\<exists>ls. from_stop_walk bag destination ls
                     \<and> reconstruct_journey destination bag = Some (Journey (rev ls))))"
    by blast
qed

theorem from_stop_chains_end_witness:
  "well_formed default_timetable
   \<and> set [Stop ''A''] \<subseteq> set (stops default_timetable)
   \<and> (0::int) \<le> 2
   \<and> Stop ''F'' \<in> set (stops default_timetable)
   \<and> (\<exists>bag. run default_timetable remdups [Stop ''A''] station_F 100 2 = Some bag
        \<and> bag (Stop ''F'') = Some \<lparr>earliest_arrival_time = 1500, trip = Some (ByTrip (trip_202 0 0)),
                                  from_stop = Some (Stop ''C'')\<rparr>
        \<and> (\<exists>lb. bag (Stop ''C'') = Some lb \<and> earliest_arrival_time lb \<le> 1500)
        \<and> (\<exists>ls. from_stop_walk bag (Stop ''F'') ls
              \<and> reconstruct_journey (Stop ''F'') bag = Some (Journey (rev ls))))"
proof -
  let ?l = "\<lparr>earliest_arrival_time = 1500, trip = Some (ByTrip (trip_202 0 0)), from_stop = Some (Stop ''C'')\<rparr>"
  have 0: "set [Stop ''A''] \<subseteq> set (stops default_timetable)" "Stop ''F'' \<in> set (stops default_timetable)"
    by (simp_all add: default_timetable_def)
  from from_stop_chains_end [where tt = default_timetable and from_stops = "[Stop ''A'']" and rounds = 2
      and ord = remdups and to_station = station_F and dep_secs = 100 and p = "Stop ''F''" and l = ?l
      and b = "Stop ''C''" and destination = "Stop ''F''"] well_formed_default_timetable 0
  obtain bag where bag: "run default_timetable remdups [Stop ''A''] station_F 100 2 = Some bag"
    and 1: "bag (Stop ''F'') = Some ?l \<and> from_stop ?l = Some (Stop ''C'')
             \<longrightarrow> (\<exists>lb. bag (Stop ''C'') = Some lb \<and> earliest_arrival_time lb \<le> earliest_arrival_time ?l)"
    and 2: "\<exists>ls. from_stop_walk bag (Stop ''F'') ls
              \<and> reconstruct_journey (Stop ''F'') bag = Some (Journey (rev ls))"
    by auto
  from fixture_two_rounds [of remdups] bag have 3: "bag (Stop ''F'') = Some ?l" by simp
  with 1 have "\<exists>lb. bag (Stop ''C'') = Some lb \<and> earliest_arrival_time lb \<le> 1500" by simp
  with bag 2 3 0 well_formed_default_timetable show ?thesis by simp
qed

lemma reconstruct_from_cycle:
  assumes c: "bag0 p = Some lp" "from_stop lp = Some q" "bag0 q = Some lq" "from_stop lq = Some p"
    and r: "reconstruct_from bag x j = Some y"
  shows "bag = bag0 \<longrightarrow> x \<noteq> p \<and> x \<noteq> q"
proof (rule reconstruct_from.raw_induct [where P = "\<lambda>bag x j y. bag = bag0 \<longrightarrow> x \<noteq> p \<and> x \<noteq> q", OF _ r])
  fix f bag x j y
  assume ih: "\<And>bag x j y. f bag x j = Some y \<Longrightarrow> bag = bag0 \<longrightarrow> x \<noteq> p \<and> x \<noteq> q"
    and e: "(case bag x of None \<Rightarrow> None
             | Some bag_to_stop \<Rightarrow>
                (case from_stop bag_to_stop of None \<Rightarrow> Some j
                 | Some fs \<Rightarrow> f bag fs (prepend_leg (Leg fs x (trip bag_to_stop) (earliest_arrival_time bag_to_stop)) j))) = Some y"
  show "bag = bag0 \<longrightarrow> x \<noteq> p \<and> x \<noteq> q"
  proof (intro impI conjI notI)
    assume "bag = bag0" "x = p"
    with e c have "f bag0 q (prepend_leg (Leg q p (trip lp) (earliest_arrival_time lp)) j) = Some y" by simp
    from ih [OF this] show False by simp
  next
    assume "bag = bag0" "x = q"
    with e c have "f bag0 p (prepend_leg (Leg p q (trip lq) (earliest_arrival_time lq)) j) = Some y" by simp
    from ih [OF this] show False by simp
  qed
qed

lemma reconstruct_journey_cycle:
  assumes "bag p = Some lp" "from_stop lp = Some q" "bag q = Some lq" "from_stop lq = Some p"
  shows "reconstruct_journey p bag = None"
proof (cases "reconstruct_journey p bag")
  case None
  then show ?thesis .
next
  case (Some y)
  then have "reconstruct_from bag p (Journey []) = Some y"
    by (simp add: reconstruct_journey_def)
  from reconstruct_from_cycle [OF assms this] show ?thesis by simp
qed

lemmas loop_defs = loop_timetable_def loop_trip_def back_trip_def station_B_def run_def run_upto_def run_init_def
  init_state_def empty_bag_def init_from_stop_def round_body_def accumulate_routes_def
  accumulate_route_def get_routes_of_stop_def stop_index_def traverse_routes_def traverse_route_def
  traverse_stop_def arrive_by_trip_def catch_trip_def write_labels_def earliest_trip_stop_time_def
  trips_at_def get_stop_def add_transfer_time_def transfers_of_stop_def relax_transfer_def
  update_def Label_def LARGE_NUMBER_def station_key_def stop_time_def Let_def numeral_2_eq_2

lemma loop_run:
  "run loop_timetable remdups [Stop ''A'', Stop ''B''] station_B 150 2 \<noteq> None"
  "the (run loop_timetable remdups [Stop ''A'', Stop ''B''] station_B 150 2) (Stop ''B'')
     = Some \<lparr>earliest_arrival_time = 140, trip = Some (ByTrip back_trip), from_stop = Some (Stop ''C'')\<rparr>"
  "the (run loop_timetable remdups [Stop ''A'', Stop ''B''] station_B 150 2) (Stop ''C'')
     = Some \<lparr>earliest_arrival_time = 100, trip = Some (ByTrip loop_trip), from_stop = Some (Stop ''B'')\<rparr>"
  by (simp_all add: loop_defs)

lemma loop_no_journey:
  "reconstruct_journey (Stop ''B'') (the (run loop_timetable remdups [Stop ''A'', Stop ''B''] station_B 150 2)) = None"
  by (rule reconstruct_journey_cycle [OF loop_run(2) _ loop_run(3)]) simp_all

text \<open>
  Claim C9, as stated, fails, in two ways.  With a trip that leaves A at 100 and reaches B
  at 100, the stop times are non-decreasing and there is no transfer, and the query from A
  at 100 records for B the arrival time 100 with from-stop A, whose recorded arrival time
  is 100 as well; following the from-stop does not strictly decrease the arrival time.
  And with a route that visits a stop twice the from-stop chains need not be acyclic: on
  the route A, B, C, B, whose trip is at C at 100 and last at B at 200, the query from the
  stops A and B at 150 boards that trip at the first visit of B (it leaves B at 200) and
  records for C the arrival time 100 with from-stop B; the next round reaches B from C at
  140 by the trip of the route C, B.  The labels of B and C then name each other as
  from-stop, and the backward walk of \<^verbatim>\<open>reconstruct_journey\<close> from B does not return.
\<close>

theorem from_stop_chains_counterexample:
  "well_formed instant_timetable
   \<and> run instant_timetable remdups [Stop ''A''] station_B 100 1 \<noteq> None
   \<and> the (run instant_timetable remdups [Stop ''A''] station_B 100 1) (Stop ''B'')
       = Some \<lparr>earliest_arrival_time = 100, trip = Some (ByTrip instant_trip), from_stop = Some (Stop ''A'')\<rparr>
   \<and> the (run instant_timetable remdups [Stop ''A''] station_B 100 1) (Stop ''A'')
       = Some \<lparr>earliest_arrival_time = 100, trip = None, from_stop = None\<rparr>
   \<and> \<not> (100::int) < 100
   \<and> sorted (times_of loop_trip) \<and> sorted (times_of back_trip)
   \<and> from_stop_idx loop_timetable ''A'' = Some [] \<and> from_stop_idx loop_timetable ''B'' = Some []
   \<and> from_stop_idx loop_timetable ''C'' = Some []
   \<and> run loop_timetable remdups [Stop ''A'', Stop ''B''] station_B 150 2 \<noteq> None
   \<and> the (run loop_timetable remdups [Stop ''A'', Stop ''B''] station_B 150 2) (Stop ''B'')
       = Some \<lparr>earliest_arrival_time = 140, trip = Some (ByTrip back_trip), from_stop = Some (Stop ''C'')\<rparr>
   \<and> the (run loop_timetable remdups [Stop ''A'', Stop ''B''] station_B 150 2) (Stop ''C'')
       = Some \<lparr>earliest_arrival_time = 100, trip = Some (ByTrip loop_trip), from_stop = Some (Stop ''B'')\<rparr>
   \<and> reconstruct_journey (Stop ''B'') (the (run loop_timetable remdups [Stop ''A'', Stop ''B''] station_B 150 2))
       = None"
proof -
  have "well_formed instant_timetable"
    by (simp add: well_formed_def instant_timetable_def times_of_def instant_trip_def stop_time_def)
  moreover have "run instant_timetable remdups [Stop ''A''] station_B 100 1 \<noteq> None"
    "the (run instant_timetable remdups [Stop ''A''] station_B 100 1) (Stop ''B'')
       = Some \<lparr>earliest_arrival_time = 100, trip = Some (ByTrip instant_trip), from_stop = Some (Stop ''A'')\<rparr>"
    "the (run instant_timetable remdups [Stop ''A''] station_B 100 1) (Stop ''A'')
       = Some \<lparr>earliest_arrival_time = 100, trip = None, from_stop = None\<rparr>"
    by (simp_all add: instant_timetable_def instant_trip_def station_B_def run_def run_upto_def run_init_def
        init_state_def empty_bag_def init_from_stop_def round_body_def accumulate_routes_def
        accumulate_route_def get_routes_of_stop_def stop_index_def traverse_routes_def traverse_route_def
        traverse_stop_def arrive_by_trip_def catch_trip_def write_labels_def earliest_trip_stop_time_def
        trips_at_def get_stop_def add_transfer_time_def transfers_of_stop_def relax_transfer_def
        update_def Label_def LARGE_NUMBER_def station_key_def stop_time_def Let_def)
  moreover have "sorted (times_of loop_trip)" "sorted (times_of back_trip)"
    "from_stop_idx loop_timetable ''A'' = Some []" "from_stop_idx loop_timetable ''B'' = Some []"
    "from_stop_idx loop_timetable ''C'' = Some []"
    by (simp_all add: times_of_def loop_trip_def back_trip_def stop_time_def loop_timetable_def)
  ultimately show ?thesis
    using loop_run loop_no_journey by simp
qed

end
